theory Spec2Isabelle
  imports Main "HOL-Library.AList" "HOL-Library.Char_ord" "HOL-Library.List_Lexorder"
begin

section \<open>The document model\<close>

text \<open>
  The pipeline works on the high-level model of an OpenAPI document. A schema position
  holds a \<^emph>\<open>proxy\<close>: a nil pointer, a \<open>$ref\<close> to a named location, or an inline schema.
  The schema of a reference proxy is looked up in the document's index, which is built
  once from the parsed text; the inline schemas form a finite tree, so every cycle of
  the schema graph runs through a reference.

  Only the fields that the filter, the pruner and the union synthesizer read are kept.
\<close>

datatype 'a DynamicValue = DynA 'a | DynB bool

datatype Schema = Schema
    (Reference: string)
    (Type: "string list")
    (Required: "string list")
    (Properties: "(string \<times> SchemaProxy) list")
    (Items: "SchemaProxy DynamicValue option")
    (AdditionalProperties: "SchemaProxy DynamicValue option")
    (AllOf: "SchemaProxy list")
    (OneOf: "SchemaProxy list")
    (AnyOf: "SchemaProxy list")
    (Not_s: SchemaProxy)
and SchemaProxy = NilProxy | RefProxy string | InlineProxy Schema

type_synonym index = "(string \<times> Schema) list"

text \<open>\<open>proxy.GetReference()\<close> and \<open>proxy.GoLow().GetReference()\<close>: the target of a
  reference proxy, the empty string otherwise.\<close>

fun GetReference :: "SchemaProxy \<Rightarrow> string" where
  "GetReference NilProxy = []"
| "GetReference (RefProxy r) = r"
| "GetReference (InlineProxy s) = []"

text \<open>\<open>proxy.Schema()\<close>: the inline schema, or the schema the index holds for the
  reference; \<open>None\<close> is the nil schema of a reference that does not resolve. A
  reference with an empty target does not resolve.\<close>

fun Schema_of :: "index \<Rightarrow> SchemaProxy \<Rightarrow> Schema option" where
  "Schema_of idx NilProxy = None"
| "Schema_of idx (RefProxy r) = (if r = [] then None else map_of idx r)"
| "Schema_of idx (InlineProxy s) = Some s"

text \<open>\<open>Schema{}\<close>, and setting \<open>schema.Properties\<close>.\<close>

definition emptySchema :: Schema where
  "emptySchema = Schema [] [] [] [] None None [] [] [] NilProxy"

fun set_Properties :: "(string \<times> SchemaProxy) list \<Rightarrow> Schema \<Rightarrow> Schema" where
  "set_Properties ps (Schema r t rq _ it ap al on an nt) = Schema r t rq ps it ap al on an nt"

record MediaType =
  mt_Schema :: SchemaProxy

record Header =
  h_Reference :: string
  h_Schema :: SchemaProxy
  h_Content :: "(string \<times> MediaType) list"

record Parameter =
  p_Reference :: string
  p_Schema :: SchemaProxy
  p_Content :: "(string \<times> MediaType) list"

record RequestBody =
  rb_Reference :: string
  rb_Content :: "(string \<times> MediaType) list"

record Response =
  r_Reference :: string
  r_Content :: "(string \<times> MediaType) list"
  r_Headers :: "(string \<times> Header) list"

record Responses =
  Default :: "Response option"
  Codes :: "(string \<times> Response) list"

record Operation =
  Tags :: "string list"
  OperationId :: string
  o_RequestBody :: "RequestBody option"
  o_Parameters :: "Parameter list"
  o_Responses :: "Responses option"

text \<open>A path item: its path-level parameters and its operations by method, in the
  order \<open>GetOperations()\<close> yields them. Setting \<open>pathItem.Get = nil\<close> removes the entry
  of method \<open>get\<close>.\<close>

record PathItem =
  pi_Parameters :: "Parameter list"
  Operations :: "(string \<times> Operation) list"

record Paths =
  PathItems :: "(string \<times> PathItem) list option"

text \<open>The component tables are ordered maps from name to component. The four tables
  that pruning drops wholesale are kept by their keys only.\<close>

record Components =
  Schemas :: "(string \<times> SchemaProxy) list"
  c_Parameters :: "(string \<times> Parameter) list"
  RequestBodies :: "(string \<times> RequestBody) list"
  c_Responses :: "(string \<times> Response) list"
  c_Headers :: "(string \<times> Header) list"
  SecuritySchemes :: "string list option"
  Callbacks :: "string list option"
  Examples :: "string list option"
  Links :: "string list option"

record Document =
  Index :: index
  d_Paths :: "Paths option"
  Webhooks :: "string list option"
  d_Components :: "Components option"

datatype error =
    ErrAmbiguousDiscriminatorMapping
  | ErrDiscriminatorNotAllMapped
  | NilPointerPanic
  | BuildError string
  | Errorf string

section \<open>Filter engine (filter.go)\<close>

text \<open>A Go slice is \<open>None\<close> when nil and \<open>Some xs\<close> otherwise; \<open>Some []\<close> is the
  empty, non-nil slice \<open>[]string{}\<close>. \<open>SchemaProperties\<close> is a Go map, kept as an
  association list: its \<open>len\<close> is positive exactly when the list is not empty.\<close>

record FilterParamsConfig =
  f_Paths :: "string list option"
  f_Tags :: "string list option"
  f_OperationIDs :: "string list option"
  f_SchemaProperties :: "(string \<times> string list) list"

record FilterConfig =
  Include :: FilterParamsConfig
  Exclude :: FilterParamsConfig

definition slices_Contains :: "string list option \<Rightarrow> string \<Rightarrow> bool" where
  "slices_Contains s x = (case s of None \<Rightarrow> False | Some xs \<Rightarrow> x \<in> set xs)"

definition len :: "'a list option \<Rightarrow> nat" where
  "len s = (case s of None \<Rightarrow> 0 | Some xs \<Rightarrow> length xs)"

text \<open>Modelled from the spec: \<open>FilterParamsConfig.isEmpty\<close> is not among the sources.
  The spec has the filter return without mutating anything when Include and Exclude
  are \<^emph>\<open>entirely empty\<close>: every axis has length zero.\<close>

definition isEmpty :: "FilterParamsConfig \<Rightarrow> bool" where
  "isEmpty p \<longleftrightarrow> len (f_Paths p) = 0 \<and> len (f_Tags p) = 0 \<and> len (f_OperationIDs p) = 0
     \<and> f_SchemaProperties p = []"

text \<open>The body of the loop over the operations of one path item: whether the operation
  is removed.\<close>

definition removeOperation :: "FilterConfig \<Rightarrow> Operation \<Rightarrow> bool" where
  "removeOperation cfg op =
    (let remove = (\<exists>tag \<in> set (Tags op). slices_Contains (f_Tags (Exclude cfg)) tag);
         remove = (if \<not> remove \<and> len (f_Tags (Include cfg)) > 0
                   then (let includeMatch =
                               (\<exists>tag \<in> set (Tags op). slices_Contains (f_Tags (Include cfg)) tag)
                         in if \<not> includeMatch then True else remove)
                   else remove);
         remove = (if f_OperationIDs (Exclude cfg) \<noteq> None
                      \<and> slices_Contains (f_OperationIDs (Exclude cfg)) (OperationId op)
                   then True else remove);
         remove = (if f_OperationIDs (Include cfg) \<noteq> None
                      \<and> \<not> slices_Contains (f_OperationIDs (Include cfg)) (OperationId op)
                   then True else remove)
     in remove)"

text \<open>The \<open>switch method\<close>: only the eight known methods are detached.\<close>

definition knownMethods :: "string list" where
  "knownMethods = [''get'', ''post'', ''put'', ''delete'', ''patch'', ''head'', ''options'', ''trace'']"

fun filterPathOperations :: "FilterConfig \<Rightarrow> (string \<times> Operation) list \<Rightarrow> (string \<times> Operation) list" where
  "filterPathOperations cfg [] = []"
| "filterPathOperations cfg ((method, op) # ops) =
     (if removeOperation cfg op \<and> method \<in> set knownMethods
      then filterPathOperations cfg ops
      else (method, op) # filterPathOperations cfg ops)"

text \<open>The loop over the path items ranges over the ordered map \<open>PathItems\<close> and deletes
  from it inside the range. \<open>Delete\<close> unlinks the pair the range stands on, so the range
  finds no pair after it and ends there: the paths behind the first deleted path are
  neither deleted nor filtered.\<close>

fun filterPathItems :: "FilterConfig \<Rightarrow> (string \<times> PathItem) list \<Rightarrow> (string \<times> PathItem) list" where
  "filterPathItems cfg [] = []"
| "filterPathItems cfg ((path, pathItem) # rest) =
     (if f_Paths (Include cfg) \<noteq> None \<and> \<not> slices_Contains (f_Paths (Include cfg)) path
      then rest
      else if f_Paths (Exclude cfg) \<noteq> None \<and> slices_Contains (f_Paths (Exclude cfg)) path
      then rest
      else (path, pathItem\<lparr>Operations := filterPathOperations cfg (Operations pathItem)\<rparr>)
             # filterPathItems cfg rest)"

text \<open>\<open>model.Paths.PathItems\<close> dereferences \<open>model.Paths\<close>: a nil \<open>Paths\<close> panics; a nil
  map of path items yields nothing.\<close>

definition filterOperations :: "Document \<Rightarrow> FilterConfig \<Rightarrow> error + Document" where
  "filterOperations model cfg =
    (case d_Paths model of
       None \<Rightarrow> Inl NilPointerPanic
     | Some paths \<Rightarrow>
         Inr (model\<lparr>d_Paths := Some (paths\<lparr>PathItems := map_option (filterPathItems cfg) (PathItems paths)\<rparr>)\<rparr>))"

text \<open>The loop over the copied keys of one schema's properties.\<close>

fun filterProperties :: "bool \<Rightarrow> bool \<Rightarrow> string list \<Rightarrow> string list \<Rightarrow>
    (string \<times> SchemaProxy) list \<Rightarrow> (string \<times> SchemaProxy) list" where
  "filterProperties includeMode excludeMode filteredProps required [] = []"
| "filterProperties includeMode excludeMode filteredProps required ((propName, prop) # props) =
     (let isRequired = propName \<in> set required;
          rest = filterProperties includeMode excludeMode filteredProps required props
      in if isRequired then (propName, prop) # rest
         else if includeMode \<and> propName \<notin> set filteredProps then rest
         else if excludeMode \<and> propName \<in> set filteredProps then rest
         else (propName, prop) # rest)"

text \<open>The body of the loop over the named schemas. The schema that is filtered is the
  one \<open>schemaProxy.Schema()\<close> hands out: for an inline component it is the component
  itself; for a component that is a reference it is a copy private to that proxy, and
  the component table keeps the reference.\<close>

definition filterSchema :: "index \<Rightarrow> bool \<Rightarrow> bool \<Rightarrow> (string \<times> string list) list \<Rightarrow>
    string \<times> SchemaProxy \<Rightarrow> string \<times> SchemaProxy" where
  "filterSchema idx includeMode excludeMode propsFilter entry =
    (case entry of (schemaName, schemaProxy) \<Rightarrow>
      (case map_of propsFilter schemaName of
         None \<Rightarrow> entry
       | Some filteredProps \<Rightarrow>
          (case schemaProxy of
             InlineProxy schema \<Rightarrow>
               (schemaName, InlineProxy (set_Properties
                  (filterProperties includeMode excludeMode filteredProps (Required schema)
                     (Properties schema)) schema))
           | _ \<Rightarrow> entry)))"

definition filterComponentSchemaProperties :: "Document \<Rightarrow> FilterConfig \<Rightarrow> Document" where
  "filterComponentSchemaProperties model cfg =
    (case d_Components model of
       None \<Rightarrow> model
     | Some comps \<Rightarrow>
        (let includeMode = length (f_SchemaProperties (Include cfg)) > 0;
             excludeMode = length (f_SchemaProperties (Exclude cfg)) > 0
         in if includeMode
            then model\<lparr>d_Components := Some (comps\<lparr>Schemas :=
                   map (filterSchema (Index model) includeMode excludeMode
                          (f_SchemaProperties (Include cfg))) (Schemas comps)\<rparr>)\<rparr>
            else if excludeMode
            then model\<lparr>d_Components := Some (comps\<lparr>Schemas :=
                   map (filterSchema (Index model) includeMode excludeMode
                          (f_SchemaProperties (Exclude cfg))) (Schemas comps)\<rparr>)\<rparr>
            else model))"

text \<open>\<open>filterOutDocument\<close>. A \<open>libopenapi.Document\<close> is what \<open>BuildV3Model\<close> returns for
  it: the slice of errors of a build that failed, or the model. Of the slice, the message
  of its first error and the text that \<open>fmt\<close> prints for the whole slice under the verb
  \<open>%w\<close> are kept. \<open>RenderAndReload\<close> belongs to the parser and is a parameter; it hands
  back the message of its first error, or the model of the reloaded document.\<close>

record BuildErrors =
  first_Error :: string
  formatted :: string

type_synonym libopenapi_Document = "BuildErrors + Document"

definition filterOutDocument ::
  "(Document \<Rightarrow> string + Document) \<Rightarrow> libopenapi_Document \<Rightarrow> FilterConfig
     \<Rightarrow> error + libopenapi_Document" where
  "filterOutDocument RenderAndReload doc cfg =
    (if isEmpty (Include cfg) \<and> isEmpty (Exclude cfg) then Inr doc
     else case doc of
        Inl errs \<Rightarrow> Inl (BuildError (first_Error errs))
      | Inr model \<Rightarrow>
         (case filterOperations model cfg of
            Inl e \<Rightarrow> Inl e
          | Inr model1 \<Rightarrow>
             (case RenderAndReload (filterComponentSchemaProperties model1 cfg) of
                Inl msg \<Rightarrow> Inl (Errorf (''error reloading document: '' @ msg))
              | Inr doc' \<Rightarrow> Inr (Inr doc'))))"

section \<open>Component pruner (prune.go)\<close>

subsection \<open>The reference collector\<close>

text \<open>The reference set is a Go \<open>map[string]bool\<close> that only ever stores \<open>true\<close>: a
  duplicate-free list of its keys. \<open>refSet[r] = true\<close> is \<open>List.insert r refSet\<close>.\<close>

type_synonym refSet = "string list"

text \<open>\<open>strings.Split(s, sep)[0]\<close> when \<open>strings.Contains(s, sep)\<close>: the part of \<open>s\<close> before
  the first occurrence of \<open>sep\<close>.\<close>

fun cutAt :: "string \<Rightarrow> string \<Rightarrow> string option" where
  "cutAt sep [] = (if sep = [] then Some [] else None)"
| "cutAt sep (c # cs) =
     (if take (length sep) (c # cs) = sep then Some []
      else map_option ((#) c) (cutAt sep cs))"

definition addParentSchemaRef :: "string \<Rightarrow> refSet \<Rightarrow> refSet" where
  "addParentSchemaRef ref refSet =
    (case cutAt ''/properties/'' ref of
       None \<Rightarrow> refSet
     | Some parentRef \<Rightarrow> List.insert parentRef refSet)"

text \<open>\<open>collectSchemaRefs\<close> calls itself on the schema behind each proxy it meets. The
  loops of its body are written over the recursive call \<open>rec\<close>, which returns \<open>None\<close>
  when it does not return.\<close>

type_synonym collector = "Schema option \<Rightarrow> refSet \<Rightarrow> refSet option"

fun collectProperties :: "collector \<Rightarrow> index \<Rightarrow> (string \<times> SchemaProxy) list \<Rightarrow> refSet \<Rightarrow> refSet option" where
  "collectProperties rec idx [] refSet = Some refSet"
| "collectProperties rec idx ((name, prop) # props) refSet =
     (if prop = NilProxy then collectProperties rec idx props refSet
      else let pRef = GetReference prop in
        if pRef \<noteq> [] \<and> pRef \<in> set refSet then collectProperties rec idx props refSet
        else (case rec (Schema_of idx prop)
                     (if pRef \<noteq> [] then addParentSchemaRef pRef (List.insert pRef refSet)
                      else refSet) of
                None \<Rightarrow> None
              | Some refSet' \<Rightarrow> collectProperties rec idx props refSet'))"

text \<open>The array-items branch and the additionalProperties branch have the same shape.
  Either the function goes on with the next branch, or it returns at once.\<close>

datatype flow = Continue refSet | Return refSet

definition collectDynamic :: "collector \<Rightarrow> index \<Rightarrow> SchemaProxy DynamicValue option \<Rightarrow> refSet \<Rightarrow> flow option" where
  "collectDynamic rec idx dv refSet =
    (case dv of
       Some (DynA a) \<Rightarrow>
         (if a = NilProxy then Some (Continue refSet)
          else let iRef = GetReference a in
            if iRef \<noteq> [] \<and> iRef \<in> set refSet then Some (Return refSet)
            else map_option Continue
                   (rec (Schema_of idx a) (if iRef \<noteq> [] then List.insert iRef refSet else refSet)))
     | _ \<Rightarrow> Some (Continue refSet))"

fun collectGroup :: "collector \<Rightarrow> index \<Rightarrow> SchemaProxy list \<Rightarrow> refSet \<Rightarrow> refSet option" where
  "collectGroup rec idx [] refSet = Some refSet"
| "collectGroup rec idx (sp # sps) refSet =
     (if sp = NilProxy then collectGroup rec idx sps refSet
      else let sRef = GetReference sp in
        if sRef \<noteq> [] \<and> sRef \<in> set refSet then collectGroup rec idx sps refSet
        else (case rec (Schema_of idx sp) (if sRef \<noteq> [] then List.insert sRef refSet else refSet) of
                None \<Rightarrow> None
              | Some refSet' \<Rightarrow> collectGroup rec idx sps refSet'))"

fun collectGroups :: "collector \<Rightarrow> index \<Rightarrow> SchemaProxy list list \<Rightarrow> refSet \<Rightarrow> refSet option" where
  "collectGroups rec idx [] refSet = Some refSet"
| "collectGroups rec idx (sps # groups) refSet =
     (case collectGroup rec idx sps refSet of
        None \<Rightarrow> None
      | Some refSet' \<Rightarrow> collectGroups rec idx groups refSet')"

definition collectSchemaRefs_body :: "collector \<Rightarrow> index \<Rightarrow> Schema option \<Rightarrow> refSet \<Rightarrow> refSet option" where
  "collectSchemaRefs_body rec idx schema refSet =
    (case schema of
       None \<Rightarrow> Some refSet
     | Some s \<Rightarrow>
        (let ref = Reference s in
         if ref \<noteq> [] \<and> ref \<in> set refSet then Some refSet
         else
          (case collectProperties rec idx (Properties s)
                  (if ref \<noteq> [] then addParentSchemaRef ref (List.insert ref refSet) else refSet) of
             None \<Rightarrow> None
           | Some refSet1 \<Rightarrow>
              (case collectDynamic rec idx (Items s) refSet1 of
                 None \<Rightarrow> None
               | Some (Return refSet2) \<Rightarrow> Some refSet2
               | Some (Continue refSet2) \<Rightarrow>
                  (case collectDynamic rec idx (AdditionalProperties s) refSet2 of
                     None \<Rightarrow> None
                   | Some (Return refSet3) \<Rightarrow> Some refSet3
                   | Some (Continue refSet3) \<Rightarrow>
                       collectGroups rec idx [AllOf s, OneOf s, AnyOf s, [Not_s s]] refSet3)))))"

text \<open>The recursion, with the depth of nested calls bounded by a fuel: \<open>None\<close> when the
  fuel runs out.\<close>

primrec collectSchemaRefs_fuel :: "nat \<Rightarrow> index \<Rightarrow> Schema option \<Rightarrow> refSet \<Rightarrow> refSet option" where
  "collectSchemaRefs_fuel 0 idx = (\<lambda>schema refSet. None)"
| "collectSchemaRefs_fuel (Suc n) idx = collectSchemaRefs_body (collectSchemaRefs_fuel n idx) idx"

text \<open>A depth that is never exceeded: a nested call either enters an inline child of the
  current schema, or follows a reference that was not yet in the set.
  \<open>collectSchemaRefs\<close> is the recursion run with that depth. Below,
  \<open>collectSchemaRefs_fuel_enough\<close> shows that the fuel does not run out, and
  \<open>collectSchemaRefs_unfold\<close> that \<open>collectSchemaRefs\<close> satisfies the equation of the source
  function.\<close>

definition indexWeight :: "index \<Rightarrow> refSet \<Rightarrow> nat" where
  "indexWeight idx refSet = sum_list (map (\<lambda>(r, t). size t) (filter (\<lambda>(r, t). r \<notin> set refSet) idx))"

definition enoughFuel :: "index \<Rightarrow> Schema option \<Rightarrow> refSet \<Rightarrow> nat" where
  "enoughFuel idx schema refSet =
     Suc ((case schema of None \<Rightarrow> 0 | Some s \<Rightarrow> size s) + indexWeight idx refSet)"

definition collectSchemaRefs :: "index \<Rightarrow> Schema option \<Rightarrow> refSet \<Rightarrow> refSet" where
  "collectSchemaRefs idx schema refSet =
    (case collectSchemaRefs_fuel (enoughFuel idx schema refSet) idx schema refSet of
       Some refSet' \<Rightarrow> refSet'
     | None \<Rightarrow> refSet)"

definition collectSchemaProxy :: "index \<Rightarrow> SchemaProxy \<Rightarrow> refSet \<Rightarrow> refSet" where
  "collectSchemaProxy idx schemaProxy refSet =
    (if schemaProxy = NilProxy then refSet
     else let ref = GetReference schemaProxy in
       collectSchemaRefs idx (Schema_of idx schemaProxy)
         (if ref \<noteq> [] then List.insert ref refSet else refSet))"

definition collectContent :: "index \<Rightarrow> (string \<times> MediaType) list \<Rightarrow> refSet \<Rightarrow> refSet" where
  "collectContent idx content refSet =
     fold (\<lambda>(name, mediaType). collectSchemaProxy idx (mt_Schema mediaType)) content refSet"

definition addRef :: "string \<Rightarrow> refSet \<Rightarrow> refSet" where
  "addRef ref refSet = (if ref \<noteq> [] then List.insert ref refSet else refSet)"

text \<open>\<open>collectRefFromProxy\<close> switches on the type of its argument. Its call on the headers
  of a response is the header case.\<close>

datatype proxy =
    ParameterProxy Parameter
  | RequestBodyProxy RequestBody
  | ResponseProxy Response
  | HeaderProxy Header

definition collectHeader :: "index \<Rightarrow> Header \<Rightarrow> refSet \<Rightarrow> refSet" where
  "collectHeader idx v refSet =
     collectContent idx (h_Content v) (collectSchemaProxy idx (h_Schema v) (addRef (h_Reference v) refSet))"

fun collectRefFromProxy :: "index \<Rightarrow> proxy \<Rightarrow> refSet \<Rightarrow> refSet" where
  "collectRefFromProxy idx (ParameterProxy v) refSet =
     collectContent idx (p_Content v) (collectSchemaProxy idx (p_Schema v) (addRef (p_Reference v) refSet))"
| "collectRefFromProxy idx (RequestBodyProxy v) refSet =
     collectContent idx (rb_Content v) (addRef (rb_Reference v) refSet)"
| "collectRefFromProxy idx (ResponseProxy v) refSet =
     fold (\<lambda>(name, header). collectHeader idx header) (r_Headers v)
       (collectContent idx (r_Content v) (addRef (r_Reference v) refSet))"
| "collectRefFromProxy idx (HeaderProxy v) refSet = collectHeader idx v refSet"

definition collectOperation :: "index \<Rightarrow> Operation \<Rightarrow> refSet \<Rightarrow> refSet" where
  "collectOperation idx op refSet =
    (let refSet = (case o_RequestBody op of
                     None \<Rightarrow> refSet
                   | Some body \<Rightarrow> collectRefFromProxy idx (RequestBodyProxy body) refSet);
         refSet = fold (\<lambda>param. collectRefFromProxy idx (ParameterProxy param)) (o_Parameters op) refSet
     in case o_Responses op of
          None \<Rightarrow> refSet
        | Some responses \<Rightarrow>
           fold (\<lambda>(code, resp). collectRefFromProxy idx (ResponseProxy resp)) (Codes responses)
             (case Default responses of
                None \<Rightarrow> refSet
              | Some resp \<Rightarrow> collectRefFromProxy idx (ResponseProxy resp) refSet))"

definition collectPathItem :: "index \<Rightarrow> PathItem \<Rightarrow> refSet \<Rightarrow> refSet" where
  "collectPathItem idx pathItem refSet =
     fold (\<lambda>(method, op). collectOperation idx op) (Operations pathItem)
       (fold (\<lambda>param. collectRefFromProxy idx (ParameterProxy param)) (pi_Parameters pathItem) refSet)"

definition collectComponentSchema :: "index \<Rightarrow> SchemaProxy \<Rightarrow> refSet \<Rightarrow> refSet" where
  "collectComponentSchema idx schemaProxy refSet =
    (if schemaProxy = NilProxy then refSet
     else collectSchemaRefs idx (Schema_of idx schemaProxy) (addRef (GetReference schemaProxy) refSet))"

definition collectComponents :: "index \<Rightarrow> Components \<Rightarrow> refSet \<Rightarrow> refSet" where
  "collectComponents idx comps refSet =
    (let refSet = fold (\<lambda>(name, param). collectRefFromProxy idx (ParameterProxy param)) (c_Parameters comps) refSet;
         refSet = fold (\<lambda>(name, reqBody). collectRefFromProxy idx (RequestBodyProxy reqBody)) (RequestBodies comps) refSet;
         refSet = fold (\<lambda>(name, resp). collectRefFromProxy idx (ResponseProxy resp)) (c_Responses comps) refSet;
         refSet = fold (\<lambda>(name, header). collectRefFromProxy idx (HeaderProxy header)) (c_Headers comps) refSet
     in fold (\<lambda>(name, schemaProxy). collectComponentSchema idx schemaProxy) (Schemas comps) refSet)"

text \<open>\<open>findOperationRefs\<close> returns the keys of the set as a sorted slice.\<close>

definition findOperationRefs :: "Document \<Rightarrow> string list" where
  "findOperationRefs model =
    (case d_Paths model of
       None \<Rightarrow> []
     | Some paths \<Rightarrow>
        (case PathItems paths of
           None \<Rightarrow> []
         | Some pathItems \<Rightarrow>
            (let refSet = fold (\<lambda>(path, pathItem). collectPathItem (Index model) pathItem) pathItems [];
                 refSet = (case d_Components model of
                             None \<Rightarrow> refSet
                           | Some comps \<Rightarrow> collectComponents (Index model) comps refSet)
             in sort refSet)))"

subsection \<open>The sweep and the loop\<close>

text \<open>One of the five loops of \<open>removeOrphanedComponents\<close>: the number of deleted keys and
  the table that is left.\<close>

fun removeUnreferenced :: "string \<Rightarrow> string list \<Rightarrow> (string \<times> 'a) list \<Rightarrow> nat \<times> (string \<times> 'a) list" where
  "removeUnreferenced kind refs [] = (0, [])"
| "removeUnreferenced kind refs ((key, v) # rest) =
     (let (countRemoved, kept) = removeUnreferenced kind refs rest
      in if kind @ key \<notin> set refs then (Suc countRemoved, kept)
         else (countRemoved, (key, v) # kept))"

definition removeOrphanedComponents :: "Document \<Rightarrow> string list \<Rightarrow> nat \<times> Document" where
  "removeOrphanedComponents model refs =
    (case d_Components model of
       None \<Rightarrow> (0, model)
     | Some comps \<Rightarrow>
        (let (n1, schemas) = removeUnreferenced ''#/components/schemas/'' refs (Schemas comps);
             (n2, parameters) = removeUnreferenced ''#/components/parameters/'' refs (c_Parameters comps);
             (n3, requestBodies) = removeUnreferenced ''#/components/requestBodies/'' refs (RequestBodies comps);
             (n4, responses) = removeUnreferenced ''#/components/responses/'' refs (c_Responses comps);
             (n5, headers) = removeUnreferenced ''#/components/headers/'' refs (c_Headers comps)
         in (n1 + n2 + n3 + n4 + n5,
             model\<lparr>d_Components := Some (comps\<lparr>Schemas := schemas, c_Parameters := parameters,
                RequestBodies := requestBodies, c_Responses := responses, c_Headers := headers\<rparr>)\<rparr>)))"

text \<open>\<open>fmt\<close>'s \<open>%d\<close> of a non-negative number.\<close>

fun showDec :: "nat \<Rightarrow> string" where
  "showDec n = (if n < 10 then [''0123456789'' ! n]
                else showDec (n div 10) @ [''0123456789'' ! (n mod 10)])"

definition maxIterations :: nat where
  "maxIterations = 1000"

definition errMaxIterations :: error where
  "errMaxIterations = Errorf (''pruning exceeded maximum iterations ('' @ showDec maxIterations
      @ ''), possible infinite loop'')"

text \<open>One pass of the loop body after the cap check: collect, then sweep.\<close>

definition pruneStep :: "Document \<Rightarrow> nat \<times> Document" where
  "pruneStep model = removeOrphanedComponents model (findOperationRefs model)"

function pruneLoop :: "nat \<Rightarrow> Document \<Rightarrow> Document \<times> error option" where
  "pruneLoop iteration model =
    (let iteration = iteration + 1 in
     if iteration > maxIterations then (model, Some errMaxIterations)
     else let (countRemoved, model') = pruneStep model in
       if countRemoved < 1 then (model', None)
       else pruneLoop iteration model')"
  by pat_completeness auto
termination
  by (relation "measure (\<lambda>(iteration, model). maxIterations - iteration)") auto

declare pruneLoop.simps [simp del]

text \<open>The start of \<open>pruneSchema\<close>: webhooks, security schemes, callbacks, component
  examples and links are set to nil.\<close>

definition dropUngenerated :: "Document \<Rightarrow> Document" where
  "dropUngenerated model =
     model\<lparr>Webhooks := None,
       d_Components := map_option
         (\<lambda>comps. comps\<lparr>SecuritySchemes := None, Callbacks := None, Examples := None, Links := None\<rparr>)
         (d_Components model)\<rparr>"

text \<open>\<open>pruneSchema\<close> mutates the cached model in place and returns an error or nil: the
  model as it is left, and the returned value. When the build fails, the slice of errors
  is handed to \<open>%w\<close>; a slice is not an error, so \<open>fmt\<close> prints it as a bad verb,
  \<open>%!w([]error=[...])\<close>, and that text follows the prefix.\<close>

definition pruneSchema :: "libopenapi_Document \<Rightarrow> libopenapi_Document \<times> error option" where
  "pruneSchema doc =
    (case doc of
       Inl errs \<Rightarrow> (doc, Some (Errorf (''error building model: '' @ formatted errs)))
     | Inr model \<Rightarrow>
        (let (model', err) = pruneLoop 0 (dropUngenerated model)
         in (Inr model', err)))"

section \<open>Union synthesizer (generateUnion)\<close>

text \<open>The discriminator of the document (\<open>base.Discriminator\<close>): its explicit mapping is an
  ordered map from value to reference. The discriminator of the type model holds a Go
  map from value to type name, kept as an association list with distinct keys.\<close>

record base_Discriminator =
  PropertyName :: string
  bd_Mapping :: "(string \<times> string) list"

record Discriminator =
  Property :: string
  Mapping :: "(string \<times> string) list"

datatype SpecLocation = SpecLocationUnion | SpecLocationOther

text \<open>\<open>GoSchema\<close> and \<open>TypeDefinition\<close> are declared outside the sources read here; they are
  kept with the fields \<open>generateUnion\<close> reads or writes. \<open>Nullable\<close> is
  \<open>Constraints.Nullable\<close>, a pointer to a bool.\<close>

datatype GoSchema = GoSchema
    (GoType: string)
    (Nullable: "bool option")
    (Discriminator: "Discriminator option")
    (UnionElements: "string list")
    (AdditionalTypes: "TypeDefinition list")
and TypeDefinition = TypeDefinition
    (td_Schema: GoSchema)
    (td_Name: string)
    (td_SpecLocation: SpecLocation)
    (td_JsonName: string)
    (td_NeedsMarshaler: bool)

text \<open>\<open>GoSchema{}\<close>, and the assignments to single fields.\<close>

definition emptyGoSchema :: GoSchema where
  "emptyGoSchema = GoSchema [] None None [] []"

fun set_GoType :: "string \<Rightarrow> GoSchema \<Rightarrow> GoSchema" where
  "set_GoType t (GoSchema _ n d u a) = GoSchema t n d u a"

fun set_Nullable :: "bool option \<Rightarrow> GoSchema \<Rightarrow> GoSchema" where
  "set_Nullable n (GoSchema t _ d u a) = GoSchema t n d u a"

fun set_Discriminator :: "Discriminator option \<Rightarrow> GoSchema \<Rightarrow> GoSchema" where
  "set_Discriminator d (GoSchema t n _ u a) = GoSchema t n d u a"

fun set_UnionElements :: "string list \<Rightarrow> GoSchema \<Rightarrow> GoSchema" where
  "set_UnionElements u (GoSchema t n d _ a) = GoSchema t n d u a"

fun set_AdditionalTypes :: "TypeDefinition list \<Rightarrow> GoSchema \<Rightarrow> GoSchema" where
  "set_AdditionalTypes a (GoSchema t n d u _) = GoSchema t n d u a"

text \<open>\<open>outSchema.Discriminator.Mapping[k] = v\<close>.\<close>

definition set_Mapping :: "string \<Rightarrow> string \<Rightarrow> GoSchema \<Rightarrow> GoSchema" where
  "set_Mapping k v outSchema =
     set_Discriminator
       (map_option (\<lambda>d. d\<lparr>Mapping := AList.update k v (Mapping d)\<rparr>) (Discriminator outSchema))
       outSchema"

text \<open>What \<open>generateUnion\<close> calls and the sources read here do not define: the synthesis of
  one schema, which may fail and may register types; the parse options with their
  registry of types; and the naming helpers. They are parameters. \<open>'o\<close> is
  \<open>ParseOptions\<close>, \<open>'st\<close> the state that \<open>GenerateGoSchema\<close> and \<open>AddType\<close> change.\<close>

record ('o, 'st) codegen =
  GenerateGoSchema :: "SchemaProxy \<Rightarrow> 'o \<Rightarrow> 'st \<Rightarrow> (GoSchema \<times> error option) \<times> 'st"
  AddType :: "'o \<Rightarrow> TypeDefinition \<Rightarrow> 'st \<Rightarrow> 'st"
  WithReference :: "string \<Rightarrow> 'o \<Rightarrow> 'o"
  WithPath :: "string list \<Rightarrow> 'o \<Rightarrow> 'o"
  path :: "'o \<Rightarrow> string list"
  pathToTypeName :: "string list \<Rightarrow> string"
  refPathToObjName :: "string \<Rightarrow> string"
  TypeDecl :: "GoSchema \<Rightarrow> string"
  needsMarshaler :: "GoSchema \<Rightarrow> bool"

text \<open>The loop that filters out null types: the elements that are kept, and whether a null
  type was met.\<close>

fun nonNull :: "index \<Rightarrow> SchemaProxy list \<Rightarrow> SchemaProxy list \<times> bool" where
  "nonNull idx [] = ([], False)"
| "nonNull idx (element # elements) =
     (let (nonNullElements, hasNull) = nonNull idx elements
      in if element = NilProxy then (nonNullElements, hasNull)
         else case Schema_of idx element of
                None \<Rightarrow> (nonNullElements, hasNull)
              | Some schema \<Rightarrow>
                  if length (Type schema) = 1 \<and> ''null'' \<in> set (Type schema)
                  then (nonNullElements, True)
                  else (element # nonNullElements, hasNull))"

definition primitives :: "string list" where
  "primitives = [''string'', ''int'', ''int8'', ''int16'', ''int32'', ''int64'', ''uint'', ''uint8'',
     ''uint16'', ''uint32'', ''uint64'', ''float'', ''float32'', ''float64'', ''bool'']"

text \<open>The body of the loop over the union elements, for an element that is not nil, in
  three parts. First, a new type is defined for an inline element that is not a
  primitive: the element's schema, the output schema and the state after it.\<close>

definition defineElementType ::
  "('o, 'st) codegen \<Rightarrow> 'o \<Rightarrow> string list \<Rightarrow> string \<Rightarrow> GoSchema \<Rightarrow> GoSchema \<Rightarrow> 'st
     \<Rightarrow> GoSchema \<times> GoSchema \<times> 'st" where
  "defineElementType g options elementPath ref elementSchema outSchema st =
    (if ref = [] \<and> GoType elementSchema \<notin> set primitives
     then
       (let elementName = pathToTypeName g elementPath;
            (outSchema, st) =
               (if TypeDecl g elementSchema \<noteq> elementName
                then (let td = TypeDefinition elementSchema elementName SpecLocationUnion
                                 ''-'' (needsMarshaler g elementSchema)
                      in (set_AdditionalTypes (AdditionalTypes outSchema @ [td]) outSchema,
                          AddType g options td st))
                else (outSchema, st));
            elementSchema = set_GoType elementName elementSchema
        in (elementSchema,
            set_AdditionalTypes (AdditionalTypes outSchema @ AdditionalTypes elementSchema) outSchema,
            st))
     else (elementSchema, outSchema, st))"

text \<open>Second, under a discriminator the element is entered in the mapping: by the key of the
  explicit mapping whose value is the element's reference, else by the implicit key.\<close>

definition mapElement ::
  "('o, 'st) codegen \<Rightarrow> base_Discriminator option \<Rightarrow> SchemaProxy \<Rightarrow> GoSchema \<Rightarrow> GoSchema
     \<Rightarrow> error + GoSchema" where
  "mapElement g discriminator element elementSchema outSchema =
    (case discriminator of
       None \<Rightarrow> Inr outSchema
     | Some d \<Rightarrow>
         if bd_Mapping d \<noteq> [] \<and> GetReference element = []
         then Inl ErrAmbiguousDiscriminatorMapping
         else
           (let key = (case find (\<lambda>(k, v). v = GetReference element) (bd_Mapping d) of
                         Some (k, v) \<Rightarrow> k
                       | None \<Rightarrow> refPathToObjName g (GetReference element))
            in Inr (set_Mapping key (GoType elementSchema) outSchema)))"

text \<open>The whole body: an error, or the output schema with this element added.\<close>

definition unionElement ::
  "('o, 'st) codegen \<Rightarrow> base_Discriminator option \<Rightarrow> 'o \<Rightarrow> nat \<Rightarrow> SchemaProxy \<Rightarrow> GoSchema \<Rightarrow> 'st
     \<Rightarrow> (error + GoSchema) \<times> 'st" where
  "unionElement g discriminator options i element outSchema st =
    (let elementPath = path g options @ [showDec i];
         ref = GetReference element;
         opts = WithPath g elementPath (WithReference g ref options);
         ((elementSchema, err), st) = GenerateGoSchema g element opts st
     in case err of
          Some e \<Rightarrow> (Inl e, st)
        | None \<Rightarrow>
           (let (elementSchema, outSchema, st) =
                   defineElementType g options elementPath ref elementSchema outSchema st
            in case mapElement g discriminator element elementSchema outSchema of
                 Inl e \<Rightarrow> (Inl e, st)
               | Inr outSchema \<Rightarrow>
                   (Inr (set_UnionElements (UnionElements outSchema @ [GoType elementSchema]) outSchema),
                    st)))"

fun unionElements ::
  "('o, 'st) codegen \<Rightarrow> base_Discriminator option \<Rightarrow> 'o \<Rightarrow> nat \<Rightarrow> SchemaProxy list \<Rightarrow> GoSchema \<Rightarrow> 'st
     \<Rightarrow> (GoSchema \<times> error option) \<times> 'st" where
  "unionElements g discriminator options i [] outSchema st = ((outSchema, None), st)"
| "unionElements g discriminator options i (element # elements) outSchema st =
     (if element = NilProxy then unionElements g discriminator options (Suc i) elements outSchema st
      else case unionElement g discriminator options i element outSchema st of
             (Inl e, st') \<Rightarrow> ((emptyGoSchema, Some e), st')
           | (Inr outSchema', st') \<Rightarrow> unionElements g discriminator options (Suc i) elements outSchema' st')"

text \<open>\<open>deduplicateUnionElements\<close>: the first occurrence of each element, in order.\<close>

fun dedupFrom :: "string list \<Rightarrow> string list \<Rightarrow> string list" where
  "dedupFrom seen [] = []"
| "dedupFrom seen (elem # elements) =
     (if elem \<notin> set seen then elem # dedupFrom (elem # seen) elements
      else dedupFrom seen elements)"

definition deduplicateUnionElements :: "string list \<Rightarrow> string list" where
  "deduplicateUnionElements elements = dedupFrom [] elements"

text \<open>\<open>generateUnion\<close>, in the order of the source. The returned pair is the Go pair of
  schema and error.

  The output schema it starts from: \<open>GoSchema{}\<close>, with an empty mapping under the property
  name when a discriminator is declared.\<close>

definition initialUnion :: "base_Discriminator option \<Rightarrow> GoSchema" where
  "initialUnion discriminator =
     set_Discriminator (map_option (\<lambda>d. \<lparr>Property = PropertyName d, Mapping = []\<rparr>) discriminator)
       emptyGoSchema"

text \<open>One element is left after the null types are filtered out: it is returned as a
  nullable type.\<close>

definition nullableElement ::
  "('o, 'st) codegen \<Rightarrow> SchemaProxy \<Rightarrow> bool \<Rightarrow> 'o \<Rightarrow> 'st \<Rightarrow> (GoSchema \<times> error option) \<times> 'st" where
  "nullableElement g element hasNull options st =
    (let ((schema, err), st) =
            GenerateGoSchema g element (WithReference g (GetReference element) options) st
     in case err of
          Some e \<Rightarrow> ((emptyGoSchema, Some e), st)
        | None \<Rightarrow> ((if hasNull then set_Nullable (Some True) schema else schema, None), st))"

text \<open>Otherwise the filtered elements make the union: the loop, the deduplication, and the
  check that the discriminator maps every element.\<close>

definition unionOf ::
  "('o, 'st) codegen \<Rightarrow> base_Discriminator option \<Rightarrow> 'o \<Rightarrow> SchemaProxy list \<Rightarrow> 'st
     \<Rightarrow> (GoSchema \<times> error option) \<times> 'st" where
  "unionOf g discriminator options elements st =
    (let ((outSchema, err), st) =
            unionElements g discriminator options 0 elements (initialUnion discriminator) st
     in case err of
          Some e \<Rightarrow> ((emptyGoSchema, Some e), st)
        | None \<Rightarrow>
           (let outSchema = set_UnionElements (deduplicateUnionElements (UnionElements outSchema)) outSchema
            in if (case Discriminator outSchema of
                     None \<Rightarrow> False
                   | Some d \<Rightarrow> length (Mapping d) \<noteq> length elements)
               then ((emptyGoSchema, Some ErrDiscriminatorNotAllMapped), st)
               else ((outSchema, None), st)))"

text \<open>\<open>elements[0]\<close> of a one-element list that holds a nil pointer is dereferenced and
  panics.\<close>

definition generateUnion ::
  "('o, 'st) codegen \<Rightarrow> index \<Rightarrow> SchemaProxy list \<Rightarrow> base_Discriminator option \<Rightarrow> 'o \<Rightarrow> 'st
     \<Rightarrow> (GoSchema \<times> error option) \<times> 'st" where
  "generateUnion g idx elements discriminator options st =
    (case elements of
       [element] \<Rightarrow>
         (if element = NilProxy then ((emptyGoSchema, Some NilPointerPanic), st)
          else GenerateGoSchema g element (WithReference g (GetReference element) options) st)
     | _ \<Rightarrow>
        (let (nonNullElements, hasNull) = nonNull idx elements
         in case nonNullElements of
              [element] \<Rightarrow> nullableElement g element hasNull options st
            | _ \<Rightarrow> unionOf g discriminator options nonNullElements st))"

section \<open>Example documents\<close>

definition petSchema :: Schema where
  "petSchema = Schema [] [''object''] [''x'']
     [(''x'', InlineProxy emptySchema), (''y'', InlineProxy emptySchema)] None None [] [] [] NilProxy"

definition petDoc :: Document where
  "petDoc = \<lparr>Index = [], d_Paths = None, Webhooks = None,
     d_Components = Some \<lparr>Schemas = [(''Pet'', InlineProxy petSchema)], c_Parameters = [],
        RequestBodies = [], c_Responses = [], c_Headers = [], SecuritySchemes = None,
        Callbacks = None, Examples = None, Links = None\<rparr>\<rparr>"

definition noFilter :: FilterParamsConfig where
  "noFilter = \<lparr>f_Paths = None, f_Tags = None, f_OperationIDs = None, f_SchemaProperties = []\<rparr>"

definition excludeXY :: FilterConfig where
  "excludeXY = \<lparr>Include = noFilter,
      Exclude = noFilter\<lparr>f_SchemaProperties := [(''Pet'', [''x'', ''y''])]\<rparr>\<rparr>"


definition catOp :: Operation where
  "catOp = \<lparr>Tags = [''cat''], OperationId = ''getCatStatus'', o_RequestBody = None,
     o_Parameters = [], o_Responses = None\<rparr>"

definition catDoc :: Document where
  "catDoc = \<lparr>Index = [],
     d_Paths = Some \<lparr>PathItems = Some [(''/cat'', \<lparr>pi_Parameters = [], Operations = [(''get'', catOp)]\<rparr>)]\<rparr>,
     Webhooks = None, d_Components = None\<rparr>"

definition includeCatEmptyPaths :: FilterConfig where
  "includeCatEmptyPaths = \<lparr>Include = noFilter\<lparr>f_Paths := Some [], f_Tags := Some [''cat'']\<rparr>,
      Exclude = noFilter\<rparr>"

definition includeCatEmptyOperationIDs :: FilterConfig where
  "includeCatEmptyOperationIDs = \<lparr>Include = noFilter\<lparr>f_Tags := Some [''cat''], f_OperationIDs := Some []\<rparr>,
      Exclude = noFilter\<rparr>"

text \<open>A document whose only operation uses no component, and whose only schema refers to
  itself.\<close>

definition nodeSchema :: Schema where
  "nodeSchema = Schema [] [''object''] [] [(''next'', RefProxy ''#/components/schemas/Node'')]
      None None [] [] [] NilProxy"

definition pingOp :: Operation where
  "pingOp = \<lparr>Tags = [], OperationId = ''ping'', o_RequestBody = None, o_Parameters = [],
     o_Responses = None\<rparr>"

definition cycleDoc :: Document where
  "cycleDoc = \<lparr>Index = [(''#/components/schemas/Node'', nodeSchema)],
     d_Paths = Some \<lparr>PathItems = Some [(''/ping'', \<lparr>pi_Parameters = [], Operations = [(''get'', pingOp)]\<rparr>)]\<rparr>,
     Webhooks = None,
     d_Components = Some \<lparr>Schemas = [(''Node'', InlineProxy nodeSchema)], c_Parameters = [],
        RequestBodies = [], c_Responses = [], c_Headers = [], SecuritySchemes = None,
        Callbacks = None, Examples = None, Links = None\<rparr>\<rparr>"

text \<open>A document with one operation that returns a \<open>Pet\<close>; \<open>Pet\<close> has a property of schema
  \<open>Tag\<close>. \<open>Unused\<close> is referenced by nothing and is the only user of \<open>Leaf\<close>.\<close>

definition petRef :: SchemaProxy where
  "petRef = RefProxy ''#/components/schemas/Pet''"

definition petObject :: Schema where
  "petObject = Schema [] [''object''] [''id'']
     [(''id'', InlineProxy (Schema [] [''integer''] [] [] None None [] [] [] NilProxy)),
      (''tag'', RefProxy ''#/components/schemas/Tag'')] None None [] [] [] NilProxy"

definition tagObject :: Schema where
  "tagObject = Schema [] [''string''] [] [] None None [] [] [] NilProxy"

definition unusedObject :: Schema where
  "unusedObject = Schema [] [''array''] [] [] (Some (DynA (RefProxy ''#/components/schemas/Leaf'')))
     None [] [] [] NilProxy"

definition listPets :: Operation where
  "listPets = \<lparr>Tags = [''pets''], OperationId = ''listPets'', o_RequestBody = None, o_Parameters = [],
     o_Responses = Some \<lparr>Default = None,
       Codes = [(''200'', \<lparr>r_Reference = [], r_Content = [(''application/json'', \<lparr>mt_Schema = petRef\<rparr>)],
                   r_Headers = []\<rparr>)]\<rparr>\<rparr>"

definition petIndex :: index where
  "petIndex = [(''#/components/schemas/Pet'', petObject), (''#/components/schemas/Tag'', tagObject),
     (''#/components/schemas/Unused'', unusedObject), (''#/components/schemas/Leaf'', tagObject)]"

definition petComponents :: "(string \<times> SchemaProxy) list \<Rightarrow> Components" where
  "petComponents schemas = \<lparr>Schemas = schemas, c_Parameters = [], RequestBodies = [], c_Responses = [],
     c_Headers = [], SecuritySchemes = None, Callbacks = None, Examples = None, Links = None\<rparr>"

definition petStore :: "(string \<times> SchemaProxy) list \<Rightarrow> Document" where
  "petStore schemas = \<lparr>Index = petIndex,
     d_Paths = Some \<lparr>PathItems = Some [(''/pets'', \<lparr>pi_Parameters = [], Operations = [(''get'', listPets)]\<rparr>)]\<rparr>,
     Webhooks = None,
     d_Components = Some (petComponents schemas)\<rparr>"

definition petStoreFull :: Document where
  "petStoreFull = petStore [(''Pet'', InlineProxy petObject), (''Tag'', InlineProxy tagObject),
     (''Unused'', InlineProxy unusedObject), (''Leaf'', InlineProxy tagObject)]"

definition petStorePruned :: Document where
  "petStorePruned = petStore [(''Pet'', InlineProxy petObject), (''Tag'', InlineProxy tagObject)]"

text \<open>A chain of aliases: each of the first 999 named schemas is a reference to the next
  one, the last one is an inline schema, and no operation uses any of them.
  \<open>chainDoc k\<close> is the document with the first \<open>k\<close> schemas of the chain gone.\<close>

definition chainName :: "nat \<Rightarrow> string" where
  "chainName i = ''S'' @ replicate i (CHR ''x'')"

definition chainRef :: "nat \<Rightarrow> string" where
  "chainRef i = ''#/components/schemas/'' @ chainName i"

definition chainAlias :: "nat \<Rightarrow> string \<times> SchemaProxy" where
  "chainAlias i = (chainName i, RefProxy (chainRef (Suc i)))"

definition chainSchemas :: "nat \<Rightarrow> (string \<times> SchemaProxy) list" where
  "chainSchemas k =
    (if k < maxIterations
     then map chainAlias [k..<maxIterations - 1] @ [(chainName (maxIterations - 1), InlineProxy emptySchema)]
     else [])"

definition chainDoc :: "nat \<Rightarrow> Document" where
  "chainDoc k = \<lparr>Index = map (\<lambda>i. (chainRef i, emptySchema)) [0..<maxIterations],
     d_Paths = Some \<lparr>PathItems = Some [(''/ping'', \<lparr>pi_Parameters = [], Operations = [(''get'', pingOp)]\<rparr>)]\<rparr>,
     Webhooks = None,
     d_Components = Some (petComponents (chainSchemas k))\<rparr>"

text \<open>An array schema whose items are \<open>Tag\<close>s and which also has an \<open>allOf\<close> member \<open>Leaf\<close>; and a
  document whose operation takes a \<open>Tag\<close> parameter and returns such an array.\<close>

definition tagList :: Schema where
  "tagList = Schema [] [''array''] [] [] (Some (DynA (RefProxy ''#/components/schemas/Tag''))) None
     [RefProxy ''#/components/schemas/Leaf''] [] [] NilProxy"

definition tagMap :: Schema where
  "tagMap = Schema [] [''object''] [] [] None (Some (DynA (RefProxy ''#/components/schemas/Tag'')))
     [RefProxy ''#/components/schemas/Leaf''] [] [] NilProxy"

definition listTags :: Operation where
  "listTags = \<lparr>Tags = [], OperationId = ''listTags'', o_RequestBody = None,
     o_Parameters = [\<lparr>p_Reference = [], p_Schema = RefProxy ''#/components/schemas/Tag'', p_Content = []\<rparr>],
     o_Responses = Some \<lparr>Default = None,
       Codes = [(''200'', \<lparr>r_Reference = [],
                   r_Content = [(''application/json'', \<lparr>mt_Schema = InlineProxy tagList\<rparr>)],
                   r_Headers = []\<rparr>)]\<rparr>\<rparr>"

definition tagStore :: "(string \<times> SchemaProxy) list \<Rightarrow> Document" where
  "tagStore schemas = \<lparr>Index = petIndex,
     d_Paths = Some \<lparr>PathItems = Some [(''/tags'', \<lparr>pi_Parameters = [], Operations = [(''get'', listTags)]\<rparr>)]\<rparr>,
     Webhooks = None,
     d_Components = Some (petComponents schemas)\<rparr>"

text \<open>A small code generator for the examples of the union synthesizer: a reference is
  synthesized to the type named by its last path segment, an inline string or integer to
  the primitive, any other inline schema to \<open>struct\<close>; \<open>AddType\<close> registers a type once per
  name. As in the spec, the implicit discriminator key of a reference is its final path
  segment.\<close>

record ParseOptions =
  po_path :: "string list"
  po_reference :: string

definition lastSegment :: "string \<Rightarrow> string" where
  "lastSegment refPath = rev (takeWhile (\<lambda>c. c \<noteq> CHR ''/'') (rev refPath))"

definition exampleGenerate :: "SchemaProxy \<Rightarrow> ParseOptions \<Rightarrow> TypeDefinition list
    \<Rightarrow> (GoSchema \<times> error option) \<times> TypeDefinition list" where
  "exampleGenerate proxy opts st =
    (case proxy of
       NilProxy \<Rightarrow> ((emptyGoSchema, Some (Errorf ''nil schema'')), st)
     | RefProxy r \<Rightarrow> ((GoSchema (lastSegment r) None None [] [], None), st)
     | InlineProxy s \<Rightarrow>
         ((GoSchema (if Type s = [''string''] then ''string''
                     else if Type s = [''integer''] then ''int'' else ''struct'') None None [] [], None), st))"

definition exampleCodegen :: "(ParseOptions, TypeDefinition list) codegen" where
  "exampleCodegen = \<lparr>
     GenerateGoSchema = exampleGenerate,
     AddType = (\<lambda>opts td st. if td_Name td \<in> set (map td_Name st) then st else st @ [td]),
     WithReference = (\<lambda>ref opts. opts\<lparr>po_reference := ref\<rparr>),
     WithPath = (\<lambda>p opts. opts\<lparr>po_path := p\<rparr>),
     path = po_path,
     pathToTypeName = (\<lambda>p. concat (map (\<lambda>part. part @ ''_'') p)),
     refPathToObjName = lastSegment,
     TypeDecl = GoType,
     needsMarshaler = (\<lambda>schema. False)\<rparr>"

definition petOptions :: ParseOptions where
  "petOptions = \<lparr>po_path = [''Pet'', ''AnyOf''], po_reference = []\<rparr>"

definition stringSchema :: Schema where
  "stringSchema = Schema [] [''string''] [] [] None None [] [] [] NilProxy"

definition nullSchema :: Schema where
  "nullSchema = Schema [] [''null''] [] [] None None [] [] [] NilProxy"

definition objectSchema :: Schema where
  "objectSchema = Schema [] [''object''] [] [(''name'', InlineProxy stringSchema)] None None [] [] [] NilProxy"

definition animalIndex :: index where
  "animalIndex = [(''#/components/schemas/Cat'', objectSchema), (''#/components/schemas/Dog'', objectSchema),
     (''#/components/schemas/Bird'', objectSchema)]"

definition catRef :: SchemaProxy where
  "catRef = RefProxy ''#/components/schemas/Cat''"

definition dogRef :: SchemaProxy where
  "dogRef = RefProxy ''#/components/schemas/Dog''"

definition birdRef :: SchemaProxy where
  "birdRef = RefProxy ''#/components/schemas/Bird''"

definition petType :: "(string \<times> string) list \<Rightarrow> base_Discriminator" where
  "petType mapping = \<lparr>PropertyName = ''petType'', bd_Mapping = mapping\<rparr>"

definition catAndDog :: base_Discriminator where
  "catAndDog = petType [(''cat'', ''#/components/schemas/Cat''), (''dog'', ''#/components/schemas/Dog'')]"

definition inlineObjectType :: TypeDefinition where
  "inlineObjectType = TypeDefinition (GoSchema ''struct'' None None [] []) ''Pet_AnyOf_1_''
     SpecLocationUnion ''-'' False"

section \<open>Auxiliary notions\<close>

text \<open>A collector that returns, with a set that only grows, whenever the fuel bound of its
  arguments is at most \<open>n\<close>; and a collector that agrees with another wherever that one returns.\<close>

definition returns :: "index \<Rightarrow> nat \<Rightarrow> collector \<Rightarrow> bool" where
  "returns idx n rec \<longleftrightarrow>
     (\<forall>schema refSet. enoughFuel idx schema refSet \<le> n
        \<longrightarrow> (\<exists>refSet'. rec schema refSet = Some refSet' \<and> set refSet \<subseteq> set refSet'))"

definition extends :: "collector \<Rightarrow> collector \<Rightarrow> bool" where
  "extends rec rec' \<longleftrightarrow> (\<forall>schema refSet r. rec schema refSet = Some r \<longrightarrow> rec' schema refSet = Some r)"

text \<open>The set a branch hands on, whether the function goes on or returns.\<close>

definition flowSet :: "flow \<Rightarrow> refSet" where
  "flowSet f = (case f of Continue r \<Rightarrow> r | Return r \<Rightarrow> r)"

text \<open>The model after \<open>k\<close> passes of the loop body, and the number of components that pass
  \<open>k + 1\<close> deletes.\<close>

definition afterIterations :: "nat \<Rightarrow> Document \<Rightarrow> Document" where
  "afterIterations k model = ((\<lambda>m. snd (pruneStep m)) ^^ k) model"

definition removedAt :: "nat \<Rightarrow> Document \<Rightarrow> nat" where
  "removedAt k model = fst (pruneStep (afterIterations k model))"

text \<open>The own references of the named components a model holds.\<close>

definition componentRefs :: "Document \<Rightarrow> string list" where
  "componentRefs model =
    (case d_Components model of
       None \<Rightarrow> []
     | Some comps \<Rightarrow>
         map (\<lambda>(key, v). ''#/components/schemas/'' @ key) (Schemas comps)
       @ map (\<lambda>(key, v). ''#/components/parameters/'' @ key) (c_Parameters comps)
       @ map (\<lambda>(key, v). ''#/components/requestBodies/'' @ key) (RequestBodies comps)
       @ map (\<lambda>(key, v). ''#/components/responses/'' @ key) (c_Responses comps)
       @ map (\<lambda>(key, v). ''#/components/headers/'' @ key) (c_Headers comps))"

text \<open>The tables \<open>pruneSchema\<close> sets to nil are nil.\<close>

definition ungeneratedDropped :: "Document \<Rightarrow> bool" where
  "ungeneratedDropped model \<longleftrightarrow>
     Webhooks model = None \<and>
     (case d_Components model of
        None \<Rightarrow> True
      | Some comps \<Rightarrow> SecuritySchemes comps = None \<and> Callbacks comps = None
          \<and> Examples comps = None \<and> Links comps = None)"

text \<open>Reachability as the spec words it: a reference is reachable when a surviving
  operation uses it, directly or inside a schema, or when a reachable component does.
  \<open>occursIn r p\<close>: the reference \<open>r\<close> stands somewhere in the inline tree of the proxy \<open>p\<close>.\<close>

inductive occursIn :: "string \<Rightarrow> SchemaProxy \<Rightarrow> bool" where
  occurs_ref: "r \<noteq> [] \<Longrightarrow> occursIn r (RefProxy r)"
| occurs_own: "Reference s = r \<Longrightarrow> r \<noteq> [] \<Longrightarrow> occursIn r (InlineProxy s)"
| occurs_property: "(k, p) \<in> set (Properties s) \<Longrightarrow> occursIn r p \<Longrightarrow> occursIn r (InlineProxy s)"
| occurs_items: "Items s = Some (DynA p) \<Longrightarrow> occursIn r p \<Longrightarrow> occursIn r (InlineProxy s)"
| occurs_additional: "AdditionalProperties s = Some (DynA p) \<Longrightarrow> occursIn r p \<Longrightarrow> occursIn r (InlineProxy s)"
| occurs_allOf: "p \<in> set (AllOf s) \<Longrightarrow> occursIn r p \<Longrightarrow> occursIn r (InlineProxy s)"
| occurs_oneOf: "p \<in> set (OneOf s) \<Longrightarrow> occursIn r p \<Longrightarrow> occursIn r (InlineProxy s)"
| occurs_anyOf: "p \<in> set (AnyOf s) \<Longrightarrow> occursIn r p \<Longrightarrow> occursIn r (InlineProxy s)"
| occurs_not: "occursIn r (Not_s s) \<Longrightarrow> occursIn r (InlineProxy s)"

text \<open>The references a parameter, request body, response or header carries itself, and
  the schema proxies it holds.\<close>

fun ownRefs :: "proxy \<Rightarrow> string list" where
  "ownRefs (ParameterProxy v) = [p_Reference v]"
| "ownRefs (RequestBodyProxy v) = [rb_Reference v]"
| "ownRefs (ResponseProxy v) = r_Reference v # map (\<lambda>(name, h). h_Reference h) (r_Headers v)"
| "ownRefs (HeaderProxy v) = [h_Reference v]"

definition headerSchemas :: "Header \<Rightarrow> SchemaProxy list" where
  "headerSchemas h = h_Schema h # map (\<lambda>(name, m). mt_Schema m) (h_Content h)"

fun heldSchemas :: "proxy \<Rightarrow> SchemaProxy list" where
  "heldSchemas (ParameterProxy v) = p_Schema v # map (\<lambda>(name, m). mt_Schema m) (p_Content v)"
| "heldSchemas (RequestBodyProxy v) = map (\<lambda>(name, m). mt_Schema m) (rb_Content v)"
| "heldSchemas (ResponseProxy v) = map (\<lambda>(name, m). mt_Schema m) (r_Content v)
     @ concat (map (\<lambda>(name, h). headerSchemas h) (r_Headers v))"
| "heldSchemas (HeaderProxy v) = headerSchemas v"

definition operationUses :: "Operation \<Rightarrow> proxy list" where
  "operationUses op =
     (case o_RequestBody op of None \<Rightarrow> [] | Some body \<Rightarrow> [RequestBodyProxy body])
     @ map ParameterProxy (o_Parameters op)
     @ (case o_Responses op of
          None \<Rightarrow> []
        | Some responses \<Rightarrow>
            (case Default responses of None \<Rightarrow> [] | Some resp \<Rightarrow> [ResponseProxy resp])
            @ map (\<lambda>(code, resp). ResponseProxy resp) (Codes responses))"

definition survivingUses :: "Document \<Rightarrow> proxy list" where
  "survivingUses model =
    (case d_Paths model of
       None \<Rightarrow> []
     | Some paths \<Rightarrow>
        (case PathItems paths of
           None \<Rightarrow> []
         | Some pathItems \<Rightarrow>
             concat (map (\<lambda>(path, pathItem).
                 map ParameterProxy (pi_Parameters pathItem)
                 @ concat (map (\<lambda>(method, op). operationUses op) (Operations pathItem)))
               pathItems)))"

definition namedComponents :: "Document \<Rightarrow> (string \<times> proxy) list" where
  "namedComponents model =
    (case d_Components model of
       None \<Rightarrow> []
     | Some comps \<Rightarrow>
         map (\<lambda>(key, v). (''#/components/parameters/'' @ key, ParameterProxy v)) (c_Parameters comps)
       @ map (\<lambda>(key, v). (''#/components/requestBodies/'' @ key, RequestBodyProxy v)) (RequestBodies comps)
       @ map (\<lambda>(key, v). (''#/components/responses/'' @ key, ResponseProxy v)) (c_Responses comps)
       @ map (\<lambda>(key, v). (''#/components/headers/'' @ key, HeaderProxy v)) (c_Headers comps))"

definition namedSchemas :: "Document \<Rightarrow> (string \<times> SchemaProxy) list" where
  "namedSchemas model =
    (case d_Components model of
       None \<Rightarrow> []
     | Some comps \<Rightarrow> map (\<lambda>(key, v). (''#/components/schemas/'' @ key, v)) (Schemas comps))"

inductive reachable :: "Document \<Rightarrow> string \<Rightarrow> bool" for model :: Document where
  used_ref: "u \<in> set (survivingUses model) \<Longrightarrow> r \<in> set (ownRefs u) \<Longrightarrow> r \<noteq> [] \<Longrightarrow> reachable model r"
| used_schema: "u \<in> set (survivingUses model) \<Longrightarrow> p \<in> set (heldSchemas u) \<Longrightarrow> occursIn r p
     \<Longrightarrow> reachable model r"
| component_ref: "reachable model r0 \<Longrightarrow> (r0, c) \<in> set (namedComponents model) \<Longrightarrow> r \<in> set (ownRefs c)
     \<Longrightarrow> r \<noteq> [] \<Longrightarrow> reachable model r"
| component_schema: "reachable model r0 \<Longrightarrow> (r0, c) \<in> set (namedComponents model)
     \<Longrightarrow> p \<in> set (heldSchemas c) \<Longrightarrow> occursIn r p \<Longrightarrow> reachable model r"
| schema_content: "reachable model r0 \<Longrightarrow> (r0, p) \<in> set (namedSchemas model) \<Longrightarrow> occursIn r p
     \<Longrightarrow> reachable model r"
| resolved_content: "reachable model r0 \<Longrightarrow> map_of (Index model) r0 = Some s \<Longrightarrow> occursIn r (InlineProxy s)
     \<Longrightarrow> reachable model r"
| property_parent: "reachable model r0 \<Longrightarrow> cutAt ''/properties/'' r0 = Some parent
     \<Longrightarrow> reachable model parent"

text \<open>What a walk of the collector is certain to record, whatever the reference set it
  starts from. \<open>recordedIn r p\<close> follows \<open>occursIn r p\<close>, with the limits of the walk: the
  content of a schema that carries a reference of its own is walked only if that
  reference is new; the additionalProperties branch is reached for certain only when the
  items carry no reference, and the \<open>allOf\<close>, \<open>oneOf\<close>, \<open>anyOf\<close> and \<open>not\<close> members only when
  neither the items nor the additionalProperties carry one.\<close>

definition noRef :: "SchemaProxy DynamicValue option \<Rightarrow> bool" where
  "noRef dv = (case dv of Some (DynA p) \<Rightarrow> GetReference p = [] | _ \<Rightarrow> True)"

inductive recordedIn :: "string \<Rightarrow> SchemaProxy \<Rightarrow> bool" where
  recorded_ref: "r \<noteq> [] \<Longrightarrow> recordedIn r (RefProxy r)"
| recorded_own: "Reference s = r \<Longrightarrow> r \<noteq> [] \<Longrightarrow> recordedIn r (InlineProxy s)"
| recorded_property: "Reference s = [] \<Longrightarrow> (k, p) \<in> set (Properties s) \<Longrightarrow> recordedIn r p
     \<Longrightarrow> recordedIn r (InlineProxy s)"
| recorded_items: "Reference s = [] \<Longrightarrow> Items s = Some (DynA p) \<Longrightarrow> recordedIn r p
     \<Longrightarrow> recordedIn r (InlineProxy s)"
| recorded_additional: "Reference s = [] \<Longrightarrow> noRef (Items s) \<Longrightarrow> AdditionalProperties s = Some (DynA p)
     \<Longrightarrow> recordedIn r p \<Longrightarrow> recordedIn r (InlineProxy s)"
| recorded_allOf: "Reference s = [] \<Longrightarrow> noRef (Items s) \<Longrightarrow> noRef (AdditionalProperties s)
     \<Longrightarrow> p \<in> set (AllOf s) \<Longrightarrow> recordedIn r p \<Longrightarrow> recordedIn r (InlineProxy s)"
| recorded_oneOf: "Reference s = [] \<Longrightarrow> noRef (Items s) \<Longrightarrow> noRef (AdditionalProperties s)
     \<Longrightarrow> p \<in> set (OneOf s) \<Longrightarrow> recordedIn r p \<Longrightarrow> recordedIn r (InlineProxy s)"
| recorded_anyOf: "Reference s = [] \<Longrightarrow> noRef (Items s) \<Longrightarrow> noRef (AdditionalProperties s)
     \<Longrightarrow> p \<in> set (AnyOf s) \<Longrightarrow> recordedIn r p \<Longrightarrow> recordedIn r (InlineProxy s)"
| recorded_not: "Reference s = [] \<Longrightarrow> noRef (Items s) \<Longrightarrow> noRef (AdditionalProperties s)
     \<Longrightarrow> recordedIn r (Not_s s) \<Longrightarrow> recordedIn r (InlineProxy s)"

text \<open>A schema position that is collected with \<open>collectSchemaProxy\<close>, or a named schema:
  the schema behind the proxy is walked whether or not the proxy's own reference is new.\<close>

definition recordedFrom :: "index \<Rightarrow> string \<Rightarrow> SchemaProxy \<Rightarrow> bool" where
  "recordedFrom idx r p \<longleftrightarrow>
     recordedIn r p \<or> (case Schema_of idx p of None \<Rightarrow> False | Some s \<Rightarrow> recordedIn r (InlineProxy s))"

text \<open>The recursive call of \<open>collectSchemaRefs\<close>, which always returns; and what one turn of
  a loop over proxies adds to the set whatever the set is.\<close>

abbreviation walk :: "index \<Rightarrow> collector" where
  "walk idx \<equiv> (\<lambda>s rs. Some (collectSchemaRefs idx s rs))"

definition certain :: "index \<Rightarrow> string \<Rightarrow> SchemaProxy \<Rightarrow> bool" where
  "certain idx r p \<longleftrightarrow>
     (case p of
        NilProxy \<Rightarrow> False
      | RefProxy r' \<Rightarrow> r' = r \<and> r \<noteq> []
      | InlineProxy s \<Rightarrow> (\<forall>rs. r \<in> set (collectSchemaRefs idx (Some s) rs)))"

text \<open>A union member that is exactly the null type.\<close>

definition isNullMember :: "index \<Rightarrow> SchemaProxy \<Rightarrow> bool" where
  "isNullMember idx element =
     (case Schema_of idx element of None \<Rightarrow> False | Some schema \<Rightarrow> Type schema = [''null''])"

text \<open>The key under which \<open>generateUnion\<close> enters a member in the discriminator mapping
  it builds: the key of the first entry of the declared mapping whose value is the
  member's reference, else the name derived from the member's reference.\<close>

definition discriminatorKey :: "('o, 'st) codegen \<Rightarrow> base_Discriminator \<Rightarrow> SchemaProxy \<Rightarrow> string" where
  "discriminatorKey g d element =
     (case find (\<lambda>(k, v). v = GetReference element) (bd_Mapping d) of
        Some (k, v) \<Rightarrow> k
      | None \<Rightarrow> refPathToObjName g (GetReference element))"

section \<open>Filter engine: properties\<close>

lemma filterProperties_required:
  "(propName, prop) \<in> set props \<Longrightarrow> propName \<in> set required
     \<Longrightarrow> (propName, prop) \<in> set (filterProperties includeMode excludeMode filteredProps required props)"
  by (induction props) (auto simp: Let_def)

lemma Properties_set_Properties: "Properties (set_Properties ps s) = ps"
  by (cases s) simp

lemma Required_set_Properties: "Required (set_Properties ps s) = Required s"
  by (cases s) simp

lemma filterSchema_required:
  assumes "Schema_of idx proxy = Some schema"
    and "(propName, prop) \<in> set (Properties schema)"
    and "propName \<in> set (Required schema)"
  shows "\<exists>proxy' schema'. filterSchema idx includeMode excludeMode propsFilter (name, proxy) = (name, proxy')
      \<and> Schema_of idx proxy' = Some schema'
      \<and> (propName, prop) \<in> set (Properties schema')
      \<and> Required schema' = Required schema"
  using assms
  by (cases proxy)
     (auto simp: filterSchema_def Properties_set_Properties Required_set_Properties
        filterProperties_required split: option.splits)

text \<open>C3. Property filtering never deletes a required property: whatever the filter
  configuration, a property of a named schema whose name is in the schema's required list
  is still a property of that schema, with the same value, after
  \<open>filterComponentSchemaProperties\<close>, and the required list is unchanged.\<close>

theorem required_property_never_removed:
  assumes "d_Components model = Some comps"
    and "i < length (Schemas comps)"
    and "Schemas comps ! i = (name, proxy)"
    and "Schema_of (Index model) proxy = Some schema"
    and "(propName, prop) \<in> set (Properties schema)"
    and "propName \<in> set (Required schema)"
  shows "\<exists>comps' proxy' schema'.
      d_Components (filterComponentSchemaProperties model cfg) = Some comps'
      \<and> length (Schemas comps') = length (Schemas comps)
      \<and> Schemas comps' ! i = (name, proxy')
      \<and> Schema_of (Index (filterComponentSchemaProperties model cfg)) proxy' = Some schema'
      \<and> (propName, prop) \<in> set (Properties schema')
      \<and> Required schema' = Required schema"
proof -
  let ?inc = "length (f_SchemaProperties (Include cfg)) > 0"
  let ?exc = "length (f_SchemaProperties (Exclude cfg)) > 0"
  have idx: "Index (filterComponentSchemaProperties model cfg) = Index model"
    using assms(1) by (simp add: filterComponentSchemaProperties_def Let_def)
  consider (inc) "?inc" | (exc) "\<not> ?inc" "?exc" | (none) "\<not> ?inc" "\<not> ?exc" by blast
  then show ?thesis
  proof cases
    case inc
    from filterSchema_required[OF assms(4,5,6), of ?inc ?exc "f_SchemaProperties (Include cfg)" name]
    obtain proxy' schema' where
      "filterSchema (Index model) ?inc ?exc (f_SchemaProperties (Include cfg)) (name, proxy) = (name, proxy')"
      "Schema_of (Index model) proxy' = Some schema'"
      "(propName, prop) \<in> set (Properties schema')" "Required schema' = Required schema"
      by blast
    then show ?thesis using assms(1,2,3) inc idx
      by (simp add: filterComponentSchemaProperties_def Let_def)
  next
    case exc
    from filterSchema_required[OF assms(4,5,6), of ?inc ?exc "f_SchemaProperties (Exclude cfg)" name]
    obtain proxy' schema' where
      "filterSchema (Index model) ?inc ?exc (f_SchemaProperties (Exclude cfg)) (name, proxy) = (name, proxy')"
      "Schema_of (Index model) proxy' = Some schema'"
      "(propName, prop) \<in> set (Properties schema')" "Required schema' = Required schema"
      by blast
    then show ?thesis using assms(1,2,3) exc idx
      by (simp add: filterComponentSchemaProperties_def Let_def)
  next
    case none
    then show ?thesis using assms
      by (simp add: filterComponentSchemaProperties_def Let_def)
  qed
qed

theorem required_property_never_removed_witness:
  "\<exists>comps' proxy' schema'.
      d_Components (filterComponentSchemaProperties petDoc excludeXY) = Some comps'
      \<and> length (Schemas comps') = 1
      \<and> Schemas comps' ! 0 = (''Pet'', proxy')
      \<and> Schema_of (Index (filterComponentSchemaProperties petDoc excludeXY)) proxy' = Some schema'
      \<and> (''x'', InlineProxy emptySchema) \<in> set (Properties schema')
      \<and> Required schema' = [''x'']
      \<and> map fst (Properties schema') = [''x'']"
proof -
  have c: "d_Components petDoc = Some \<lparr>Schemas = [(''Pet'', InlineProxy petSchema)], c_Parameters = [],
        RequestBodies = [], c_Responses = [], c_Headers = [], SecuritySchemes = None,
        Callbacks = None, Examples = None, Links = None\<rparr>" by (simp add: petDoc_def)
  from required_property_never_removed[OF c, of 0 "''Pet''" "InlineProxy petSchema" petSchema
      "''x''" "InlineProxy emptySchema" excludeXY]
  show ?thesis
    by (simp add: petSchema_def petDoc_def excludeXY_def noFilter_def
        filterComponentSchemaProperties_def filterSchema_def)
qed

text \<open>C2. An Include axis that is empty but not nil still filters. With
  \<open>Include.Paths = []string{}\<close> (and a tag filter, so that the configuration is not entirely
  empty) \<open>filterOperations\<close> deletes the path \<open>/cat\<close>, which no rule excludes; with
  \<open>Include.OperationIDs = []string{}\<close> it detaches the only operation. The tests of
  \<open>filter_test.go\<close> expect an empty axis not to filter.\<close>

theorem empty_include_axis_filters_everything:
  "len (f_Paths (Include includeCatEmptyPaths)) = 0
   \<and> filterOperations catDoc includeCatEmptyPaths
       = Inr (catDoc\<lparr>d_Paths := Some \<lparr>PathItems = Some []\<rparr>\<rparr>)
   \<and> filterOutDocument Inr (Inr catDoc) includeCatEmptyPaths
       = Inr (Inr (catDoc\<lparr>d_Paths := Some \<lparr>PathItems = Some []\<rparr>\<rparr>))
   \<and> len (f_OperationIDs (Include includeCatEmptyOperationIDs)) = 0
   \<and> filterOperations catDoc includeCatEmptyOperationIDs
       = Inr (catDoc\<lparr>d_Paths := Some \<lparr>PathItems =
            Some [(''/cat'', \<lparr>pi_Parameters = [], Operations = []\<rparr>)]\<rparr>\<rparr>)"
  by (simp add: includeCatEmptyPaths_def includeCatEmptyOperationIDs_def noFilter_def catDoc_def
      catOp_def len_def filterOperations_def filterOutDocument_def isEmpty_def slices_Contains_def
      removeOperation_def knownMethods_def filterComponentSchemaProperties_def)

section \<open>The collector returns\<close>

lemma indexWeight_antitone:
  "set a \<subseteq> set b \<Longrightarrow> indexWeight idx b \<le> indexWeight idx a"
  unfolding indexWeight_def
  by (induction idx) (auto split: prod.splits)

lemma indexWeight_fresh:
  "map_of idx r = Some t \<Longrightarrow> r \<notin> set a \<Longrightarrow> r \<in> set b \<Longrightarrow> set a \<subseteq> set b
     \<Longrightarrow> size t + indexWeight idx b \<le> indexWeight idx a"
proof (induction idx)
  case Nil
  then show ?case by simp
next
  case (Cons e idx)
  obtain k v where e: "e = (k, v)" by (cases e)
  show ?case
  proof (cases "k = r")
    case True
    with Cons.prems e have "v = t" by simp
    moreover have "indexWeight idx b \<le> indexWeight idx a"
      using Cons.prems(4) by (rule indexWeight_antitone)
    ultimately show ?thesis
      using Cons.prems True e by (simp add: indexWeight_def)
  next
    case False
    with Cons.prems e have "map_of idx r = Some t" by simp
    from Cons.IH[OF this Cons.prems(2,3,4)]
    show ?thesis using Cons.prems(4) e by (auto simp: indexWeight_def)
  qed
qed

lemma in_addParentSchemaRef: "x \<in> set refSet \<Longrightarrow> x \<in> set (addParentSchemaRef ref refSet)"
  by (auto simp: addParentSchemaRef_def split: option.splits)

lemma enoughFuel_proxy:
  assumes "\<not> (GetReference p \<noteq> [] \<and> GetReference p \<in> set rs)"
    and "set (addRef (GetReference p) rs) \<subseteq> set rs'"
  shows "enoughFuel idx (Schema_of idx p) rs' \<le> Suc (size p) + indexWeight idx rs"
proof (cases p)
  case NilProxy
  have "set rs \<subseteq> set rs'" using assms(2) by (auto simp: addRef_def split: if_splits)
  from indexWeight_antitone[OF this, of idx] show ?thesis using NilProxy by (simp add: enoughFuel_def)
next
  case (RefProxy r)
  have sub: "set rs \<subseteq> set rs'" using assms(2) by (auto simp: addRef_def split: if_splits)
  show ?thesis
  proof (cases "Schema_of idx p")
    case None
    from indexWeight_antitone[OF sub, of idx] show ?thesis using None by (simp add: enoughFuel_def)
  next
    case (Some t)
    with RefProxy have r: "r \<noteq> []" "map_of idx r = Some t" by (auto split: if_splits)
    with assms RefProxy have "r \<notin> set rs" "r \<in> set rs'" by (auto simp: addRef_def)
    from indexWeight_fresh[OF r(2) this sub] show ?thesis using Some by (simp add: enoughFuel_def)
  qed
next
  case (InlineProxy s)
  have "set rs \<subseteq> set rs'" using assms(2) by (auto simp: addRef_def split: if_splits)
  from indexWeight_antitone[OF this, of idx] show ?thesis using InlineProxy by (simp add: enoughFuel_def)
qed

lemma returns_proxy:
  assumes "returns idx n rec"
    and "\<not> (GetReference p \<noteq> [] \<and> GetReference p \<in> set rs)"
    and "set (addRef (GetReference p) rs) \<subseteq> set rs'"
    and "Suc (size p) + indexWeight idx rs \<le> n"
  shows "\<exists>r. rec (Schema_of idx p) rs' = Some r \<and> set rs' \<subseteq> set r"
proof -
  have "enoughFuel idx (Schema_of idx p) rs' \<le> n"
    using enoughFuel_proxy[OF assms(2,3), of idx] assms(4) by simp
  with assms(1) show ?thesis unfolding returns_def by blast
qed

lemma collectProperties_returns:
  assumes "returns idx n rec"
  shows "(\<And>k p. (k, p) \<in> set props \<Longrightarrow> Suc (size p) \<le> m) \<Longrightarrow> m + indexWeight idx rs \<le> n
     \<Longrightarrow> \<exists>r. collectProperties rec idx props rs = Some r \<and> set rs \<subseteq> set r"
proof (induction props arbitrary: rs)
  case Nil
  then show ?case by simp
next
  case (Cons e props)
  obtain k p where e: "e = (k, p)" by (cases e)
  have IH: "\<And>rs'. set rs \<subseteq> set rs' \<Longrightarrow> \<exists>r. collectProperties rec idx props rs' = Some r \<and> set rs' \<subseteq> set r"
  proof -
    fix rs' assume "set rs \<subseteq> set rs'"
    then have "m + indexWeight idx rs' \<le> n"
      using indexWeight_antitone[of rs rs' idx] Cons.prems(2) by simp
    moreover have "Suc (size p) \<le> m" if "(k, p) \<in> set props" for k p
      using Cons.prems(1)[of k p] that by simp
    ultimately show "\<exists>r. collectProperties rec idx props rs' = Some r \<and> set rs' \<subseteq> set r"
      by (rule Cons.IH[rotated])
  qed
  show ?case
  proof (cases "p = NilProxy \<or> (GetReference p \<noteq> [] \<and> GetReference p \<in> set rs)")
    case True
    then show ?thesis using IH[of rs] e by (auto simp: Let_def)
  next
    case False
    let ?rs' = "if GetReference p \<noteq> [] then addParentSchemaRef (GetReference p) (List.insert (GetReference p) rs) else rs"
    have sub: "set (addRef (GetReference p) rs) \<subseteq> set ?rs'"
      by (auto simp: addRef_def intro: in_addParentSchemaRef)
    have "Suc (size p) + indexWeight idx rs \<le> n"
      using Cons.prems(1)[of k p] Cons.prems(2) e by simp
    from returns_proxy[OF assms _ sub this] False
    obtain r where r: "rec (Schema_of idx p) ?rs' = Some r" "set ?rs' \<subseteq> set r" by blast
    have "set rs \<subseteq> set r" using sub r(2) by (auto simp: addRef_def split: if_splits)
    from IH[OF this] obtain r' where "collectProperties rec idx props r = Some r'" "set r \<subseteq> set r'"
      by blast
    with r False e \<open>set rs \<subseteq> set r\<close> show ?thesis by (auto simp: Let_def)
  qed
qed

lemma collectGroup_returns:
  assumes "returns idx n rec"
  shows "(\<And>p. p \<in> set sps \<Longrightarrow> Suc (size p) \<le> m) \<Longrightarrow> m + indexWeight idx rs \<le> n
     \<Longrightarrow> \<exists>r. collectGroup rec idx sps rs = Some r \<and> set rs \<subseteq> set r"
proof (induction sps arbitrary: rs)
  case Nil
  then show ?case by simp
next
  case (Cons p sps)
  have IH: "\<And>rs'. set rs \<subseteq> set rs' \<Longrightarrow> \<exists>r. collectGroup rec idx sps rs' = Some r \<and> set rs' \<subseteq> set r"
  proof -
    fix rs' assume "set rs \<subseteq> set rs'"
    then have "m + indexWeight idx rs' \<le> n"
      using indexWeight_antitone[of rs rs' idx] Cons.prems(2) by simp
    moreover have "Suc (size p) \<le> m" if "p \<in> set sps" for p
      using Cons.prems(1)[of p] that by simp
    ultimately show "\<exists>r. collectGroup rec idx sps rs' = Some r \<and> set rs' \<subseteq> set r"
      by (rule Cons.IH[rotated])
  qed
  show ?case
  proof (cases "p = NilProxy \<or> (GetReference p \<noteq> [] \<and> GetReference p \<in> set rs)")
    case True
    then show ?thesis using IH[of rs] by (auto simp: Let_def)
  next
    case False
    let ?rs' = "if GetReference p \<noteq> [] then List.insert (GetReference p) rs else rs"
    have sub: "set (addRef (GetReference p) rs) \<subseteq> set ?rs'"
      by (auto simp: addRef_def)
    have "Suc (size p) + indexWeight idx rs \<le> n"
      using Cons.prems(1)[of p] Cons.prems(2) by simp
    from returns_proxy[OF assms _ sub this] False
    obtain r where r: "rec (Schema_of idx p) ?rs' = Some r" "set ?rs' \<subseteq> set r" by blast
    have "set rs \<subseteq> set r" using sub r(2) by (auto simp: addRef_def split: if_splits)
    from IH[OF this] obtain r' where "collectGroup rec idx sps r = Some r'" "set r \<subseteq> set r'"
      by blast
    with r False \<open>set rs \<subseteq> set r\<close> show ?thesis by (auto simp: Let_def)
  qed
qed

lemma collectGroups_returns:
  assumes "returns idx n rec"
  shows "(\<And>sps p. sps \<in> set groups \<Longrightarrow> p \<in> set sps \<Longrightarrow> Suc (size p) \<le> m) \<Longrightarrow> m + indexWeight idx rs \<le> n
     \<Longrightarrow> \<exists>r. collectGroups rec idx groups rs = Some r \<and> set rs \<subseteq> set r"
proof (induction groups arbitrary: rs)
  case Nil
  then show ?case by simp
next
  case (Cons sps groups)
  have "Suc (size p) \<le> m" if "p \<in> set sps" for p
    using Cons.prems(1)[of sps p] that by simp
  from collectGroup_returns[OF assms this Cons.prems(2)]
  obtain r where r: "collectGroup rec idx sps rs = Some r" "set rs \<subseteq> set r" by auto
  then have "m + indexWeight idx r \<le> n"
    using indexWeight_antitone[of rs r idx] Cons.prems(2) by simp
  moreover have "Suc (size p) \<le> m" if "sps \<in> set groups" "p \<in> set sps" for sps p
    using Cons.prems(1)[of sps p] that by simp
  ultimately have "\<exists>r'. collectGroups rec idx groups r = Some r' \<and> set r \<subseteq> set r'"
    by (rule Cons.IH[rotated])
  then obtain r' where "collectGroups rec idx groups r = Some r'" "set r \<subseteq> set r'" by auto
  with r show ?case by auto
qed

lemma collectDynamic_returns:
  assumes "returns idx n rec"
    and "\<And>p. dv = Some (DynA p) \<Longrightarrow> Suc (size p) \<le> m"
    and "m + indexWeight idx rs \<le> n"
  shows "\<exists>f. collectDynamic rec idx dv rs = Some f \<and> set rs \<subseteq> set (case f of Continue r \<Rightarrow> r | Return r \<Rightarrow> r)"
proof (cases "\<exists>p. dv = Some (DynA p) \<and> p \<noteq> NilProxy \<and> \<not> (GetReference p \<noteq> [] \<and> GetReference p \<in> set rs)")
  case True
  then obtain p where p: "dv = Some (DynA p)" "p \<noteq> NilProxy" "\<not> (GetReference p \<noteq> [] \<and> GetReference p \<in> set rs)"
    by blast
  let ?rs' = "if GetReference p \<noteq> [] then List.insert (GetReference p) rs else rs"
  have sub: "set (addRef (GetReference p) rs) \<subseteq> set ?rs'"
    by (auto simp: addRef_def)
  have "Suc (size p) + indexWeight idx rs \<le> n"
    using assms(2)[OF p(1)] assms(3) by simp
  from returns_proxy[OF assms(1) p(3) sub this]
  obtain r where r: "rec (Schema_of idx p) ?rs' = Some r" "set ?rs' \<subseteq> set r" by blast
  have "set rs \<subseteq> set r" using sub r(2) by (auto simp: addRef_def split: if_splits)
  with r p show ?thesis by (auto simp: collectDynamic_def Let_def)
next
  case False
  then show ?thesis
    by (auto simp: collectDynamic_def Let_def split: option.splits DynamicValue.splits)
qed

lemma size_list_member: "x \<in> set xs \<Longrightarrow> Suc (f x) \<le> size_list f xs"
  by (induction xs) auto

lemma size_Properties: "(k, p) \<in> set (Properties s) \<Longrightarrow> Suc (size p) \<le> size s"
  using size_list_member[of "(k, p)" "Properties s" "size_prod (\<lambda>x. 0) size"]
  by (cases s) simp

lemma size_Items: "Items s = Some (DynA p) \<Longrightarrow> Suc (size p) \<le> size s"
  by (cases s) simp

lemma size_AdditionalProperties: "AdditionalProperties s = Some (DynA p) \<Longrightarrow> Suc (size p) \<le> size s"
  by (cases s) simp

lemma size_groups:
  "sps \<in> set [AllOf s, OneOf s, AnyOf s, [Not_s s]] \<Longrightarrow> p \<in> set sps \<Longrightarrow> Suc (size p) \<le> size s"
  using size_list_member[of p "AllOf s" size] size_list_member[of p "OneOf s" size]
    size_list_member[of p "AnyOf s" size]
  by (cases s) auto

lemma collectSchemaRefs_body_returns:
  assumes rec: "returns idx n rec"
  shows "returns idx (Suc n) (collectSchemaRefs_body rec idx)"
  unfolding returns_def
proof (intro allI impI)
  fix schema refSet
  assume fuel: "enoughFuel idx schema refSet \<le> Suc n"
  show "\<exists>refSet'. collectSchemaRefs_body rec idx schema refSet = Some refSet' \<and> set refSet \<subseteq> set refSet'"
  proof (cases schema)
    case None
    then show ?thesis by (simp add: collectSchemaRefs_body_def)
  next
    case (Some s)
    show ?thesis
    proof (cases "Reference s \<noteq> [] \<and> Reference s \<in> set refSet")
      case True
      then show ?thesis using Some by (simp add: collectSchemaRefs_body_def)
    next
      case False
      let ?rs0 = "if Reference s \<noteq> [] then addParentSchemaRef (Reference s) (List.insert (Reference s) refSet) else refSet"
      have sub0: "set refSet \<subseteq> set ?rs0" by (auto intro: in_addParentSchemaRef)
      have w: "size s + indexWeight idx refSet \<le> n"
        using fuel Some by (simp add: enoughFuel_def)
      have w0: "size s + indexWeight idx ?rs0 \<le> n"
        using indexWeight_antitone[OF sub0, of idx] w by linarith
      from collectProperties_returns[OF rec _ w0, of "Properties s"] size_Properties
      obtain rs1 where rs1: "collectProperties rec idx (Properties s) ?rs0 = Some rs1" "set ?rs0 \<subseteq> set rs1"
        by blast
      have w1: "size s + indexWeight idx rs1 \<le> n"
        using indexWeight_antitone[OF rs1(2), of idx] w0 by linarith
      from collectDynamic_returns[OF rec _ w1, of "Items s"] size_Items
      obtain f2 where f2: "collectDynamic rec idx (Items s) rs1 = Some f2"
        "set rs1 \<subseteq> set (case f2 of Continue r \<Rightarrow> r | Return r \<Rightarrow> r)" by blast
      show ?thesis
      proof (cases f2)
        case (Return rs2)
        with f2 rs1 sub0 False Some show ?thesis
          by (auto simp: collectSchemaRefs_body_def Let_def)
      next
        case (Continue rs2)
        with f2 have s2: "set rs1 \<subseteq> set rs2" by simp
        have w2: "size s + indexWeight idx rs2 \<le> n"
          using indexWeight_antitone[OF s2, of idx] w1 by linarith
        from collectDynamic_returns[OF rec _ w2, of "AdditionalProperties s"] size_AdditionalProperties
        obtain f3 where f3: "collectDynamic rec idx (AdditionalProperties s) rs2 = Some f3"
          "set rs2 \<subseteq> set (case f3 of Continue r \<Rightarrow> r | Return r \<Rightarrow> r)" by blast
        show ?thesis
        proof (cases f3)
          case (Return rs3)
          with f3 f2 Continue s2 rs1 sub0 False Some show ?thesis
            by (auto simp: collectSchemaRefs_body_def Let_def)
        next
          case c3: (Continue rs3)
          with f3 have s3: "set rs2 \<subseteq> set rs3" by simp
          have w3: "size s + indexWeight idx rs3 \<le> n"
            using indexWeight_antitone[OF s3, of idx] w2 by linarith
          from collectGroups_returns[OF rec _ w3, of "[AllOf s, OneOf s, AnyOf s, [Not_s s]]"] size_groups
          obtain rs4 where "collectGroups rec idx [AllOf s, OneOf s, AnyOf s, [Not_s s]] rs3 = Some rs4"
            "set rs3 \<subseteq> set rs4" by blast
          with c3 f3 f2 Continue s2 s3 rs1 sub0 False Some show ?thesis
            by (auto simp: collectSchemaRefs_body_def Let_def)
        qed
      qed
    qed
  qed
qed

lemma collectSchemaRefs_fuel_returns: "returns idx n (collectSchemaRefs_fuel n idx)"
proof (induction n)
  case 0
  show ?case by (simp add: returns_def enoughFuel_def)
next
  case (Suc n)
  then show ?case by (simp add: collectSchemaRefs_body_returns)
qed

lemma extendsD: "extends rec rec' \<Longrightarrow> rec schema refSet = Some r \<Longrightarrow> rec' schema refSet = Some r"
  by (simp add: extends_def)

lemma collectProperties_extends:
  "extends rec rec' \<Longrightarrow> collectProperties rec idx props rs = Some r
     \<Longrightarrow> collectProperties rec' idx props rs = Some r"
proof (induction props arbitrary: rs)
  case Nil
  then show ?case by simp
next
  case (Cons e props)
  obtain k p where e: "e = (k, p)" by (cases e)
  show ?case using Cons e
    by (auto simp: Let_def split: if_splits option.splits dest: extendsD)
qed

lemma collectGroup_extends:
  "extends rec rec' \<Longrightarrow> collectGroup rec idx sps rs = Some r
     \<Longrightarrow> collectGroup rec' idx sps rs = Some r"
proof (induction sps arbitrary: rs)
  case Nil
  then show ?case by simp
next
  case (Cons p sps)
  then show ?case
    by (auto simp: Let_def split: if_splits option.splits dest: extendsD)
qed

lemma collectGroups_extends:
  "extends rec rec' \<Longrightarrow> collectGroups rec idx groups rs = Some r
     \<Longrightarrow> collectGroups rec' idx groups rs = Some r"
proof (induction groups arbitrary: rs)
  case Nil
  then show ?case by simp
next
  case (Cons sps groups)
  then show ?case
    by (auto split: option.splits dest: collectGroup_extends)
qed

lemma collectDynamic_extends:
  "extends rec rec' \<Longrightarrow> collectDynamic rec idx dv rs = Some f
     \<Longrightarrow> collectDynamic rec' idx dv rs = Some f"
  by (auto simp: collectDynamic_def Let_def split: option.splits DynamicValue.splits if_splits
      dest: extendsD)

lemma collectSchemaRefs_body_extends:
  assumes ext: "extends rec rec'"
  shows "extends (collectSchemaRefs_body rec idx) (collectSchemaRefs_body rec' idx)"
  unfolding extends_def
proof (intro allI impI)
  fix schema refSet r
  assume run: "collectSchemaRefs_body rec idx schema refSet = Some r"
  show "collectSchemaRefs_body rec' idx schema refSet = Some r"
  proof (cases schema)
    case None
    with run show ?thesis by (auto simp: collectSchemaRefs_body_def Let_def)
  next
    case (Some s)
    show ?thesis
    proof (cases "Reference s \<noteq> [] \<and> Reference s \<in> set refSet")
      case True
      with run Some show ?thesis by (auto simp: collectSchemaRefs_body_def Let_def)
    next
      case False
      let ?rs0 = "if Reference s \<noteq> [] then addParentSchemaRef (Reference s) (List.insert (Reference s) refSet) else refSet"
      from run Some False obtain rs1 where
        rs1: "collectProperties rec idx (Properties s) ?rs0 = Some rs1"
        by (cases "collectProperties rec idx (Properties s) ?rs0")
           (auto simp: collectSchemaRefs_body_def Let_def)
      from run Some False rs1 obtain f2 where
        f2: "collectDynamic rec idx (Items s) rs1 = Some f2"
        by (cases "collectDynamic rec idx (Items s) rs1")
           (auto simp: collectSchemaRefs_body_def Let_def)
      note rs1' = collectProperties_extends[OF ext rs1]
      note f2' = collectDynamic_extends[OF ext f2]
      show ?thesis
      proof (cases f2)
        case (Return rs2)
        with run Some False rs1 f2 rs1' f2' show ?thesis
          by (auto simp: collectSchemaRefs_body_def Let_def)
      next
        case (Continue rs2)
        from run Some False rs1 f2 Continue obtain f3 where
          f3: "collectDynamic rec idx (AdditionalProperties s) rs2 = Some f3"
          by (cases "collectDynamic rec idx (AdditionalProperties s) rs2")
             (auto simp: collectSchemaRefs_body_def Let_def)
        note f3' = collectDynamic_extends[OF ext f3]
        show ?thesis
        proof (cases f3)
          case (Return rs3)
          with run Some False rs1 f2 Continue f3 rs1' f2' f3' show ?thesis
            by (auto simp: collectSchemaRefs_body_def Let_def)
        next
          case c3: (Continue rs3)
          with run Some False rs1 f2 Continue f3
          have "collectGroups rec idx [AllOf s, OneOf s, AnyOf s, [Not_s s]] rs3 = Some r"
            by (auto simp: collectSchemaRefs_body_def Let_def)
          from collectGroups_extends[OF ext this]
          show ?thesis using Some False rs1' f2' f3' Continue c3
            by (auto simp: collectSchemaRefs_body_def Let_def)
        qed
      qed
    qed
  qed
qed

lemma collectSchemaRefs_fuel_extends:
  "extends (collectSchemaRefs_fuel n idx) (collectSchemaRefs_fuel (n + k) idx)"
proof (induction n)
  case 0
  show ?case by (simp add: extends_def)
next
  case (Suc n)
  then show ?case by (simp add: collectSchemaRefs_body_extends)
qed

lemma collectSchemaRefs_fuel_enough:
  assumes "enoughFuel idx schema refSet \<le> n"
  shows "collectSchemaRefs_fuel n idx schema refSet = Some (collectSchemaRefs idx schema refSet)"
proof -
  let ?e = "enoughFuel idx schema refSet"
  from collectSchemaRefs_fuel_returns[of idx ?e]
  obtain r where r: "collectSchemaRefs_fuel ?e idx schema refSet = Some r"
    unfolding returns_def by blast
  then have "collectSchemaRefs idx schema refSet = r"
    by (simp add: collectSchemaRefs_def)
  moreover have "collectSchemaRefs_fuel (?e + (n - ?e)) idx schema refSet = Some r"
    using collectSchemaRefs_fuel_extends r by (rule extendsD)
  ultimately show ?thesis using assms by simp
qed

lemma collectSchemaRefs_superset: "set refSet \<subseteq> set (collectSchemaRefs idx schema refSet)"
proof -
  from collectSchemaRefs_fuel_returns[of idx "enoughFuel idx schema refSet"]
  obtain r where "collectSchemaRefs_fuel (enoughFuel idx schema refSet) idx schema refSet = Some r"
    "set refSet \<subseteq> set r"
    unfolding returns_def by blast
  then show ?thesis by (simp add: collectSchemaRefs_def)
qed

lemma collectSchemaRefs_fuel_sound:
  assumes "collectSchemaRefs_fuel n idx schema refSet = Some r"
  shows "collectSchemaRefs idx schema refSet = r"
proof -
  let ?e = "enoughFuel idx schema refSet"
  have "collectSchemaRefs_fuel (n + ?e) idx schema refSet = Some r"
    using collectSchemaRefs_fuel_extends assms by (rule extendsD)
  moreover have "collectSchemaRefs_fuel (n + ?e) idx schema refSet = Some (collectSchemaRefs idx schema refSet)"
    by (rule collectSchemaRefs_fuel_enough) simp
  ultimately show ?thesis by simp
qed

lemma collectSchemaRefs_unfold:
  "collectSchemaRefs_body (\<lambda>s rs. Some (collectSchemaRefs idx s rs)) idx schema refSet
     = Some (collectSchemaRefs idx schema refSet)"
proof -
  obtain m where m: "enoughFuel idx schema refSet = Suc m" by (simp add: enoughFuel_def)
  have "collectSchemaRefs_fuel (Suc m) idx schema refSet = Some (collectSchemaRefs idx schema refSet)"
    by (rule collectSchemaRefs_fuel_enough) (simp add: m)
  then have "collectSchemaRefs_body (collectSchemaRefs_fuel m idx) idx schema refSet
      = Some (collectSchemaRefs idx schema refSet)" by simp
  moreover have "extends (collectSchemaRefs_fuel m idx) (\<lambda>s rs. Some (collectSchemaRefs idx s rs))"
    by (simp add: extends_def collectSchemaRefs_fuel_sound)
  ultimately show ?thesis
    using collectSchemaRefs_body_extends extendsD by blast
qed

text \<open>C9. The schema traversal of the reference collector terminates on every index and
  schema, cyclic or not, whatever the reference set it starts from: a recursion depth of
  \<open>enoughFuel\<close> is never exceeded, because a nested call either enters an inline child or
  follows a reference that was not yet in the set. The value it returns satisfies the
  equation of the source function.\<close>

theorem collectSchemaRefs_terminates:
  "collectSchemaRefs_fuel (enoughFuel idx schema refSet + k) idx schema refSet
      = Some (collectSchemaRefs idx schema refSet)
   \<and> collectSchemaRefs_body (\<lambda>s rs. Some (collectSchemaRefs idx s rs)) idx schema refSet
      = Some (collectSchemaRefs idx schema refSet)"
proof (intro conjI)
  show "collectSchemaRefs_fuel (enoughFuel idx schema refSet + k) idx schema refSet
      = Some (collectSchemaRefs idx schema refSet)"
    by (rule collectSchemaRefs_fuel_enough) simp
  show "collectSchemaRefs_body (\<lambda>s rs. Some (collectSchemaRefs idx s rs)) idx schema refSet
      = Some (collectSchemaRefs idx schema refSet)"
    by (rule collectSchemaRefs_unfold)
qed

theorem collectSchemaRefs_terminates_witness:
  "enoughFuel (Index cycleDoc) (Some nodeSchema) [] = 11
   \<and> collectSchemaRefs_fuel 11 (Index cycleDoc) (Some nodeSchema) [] = Some [''#/components/schemas/Node'']
   \<and> collectSchemaRefs_fuel 2 (Index cycleDoc) (Some nodeSchema) [] = Some [''#/components/schemas/Node'']
   \<and> collectSchemaRefs_fuel 1 (Index cycleDoc) (Some nodeSchema) [] = None"
proof -
  have e: "enoughFuel (Index cycleDoc) (Some nodeSchema) [] = 11"
    by (simp add: enoughFuel_def indexWeight_def cycleDoc_def nodeSchema_def)
  have r: "collectSchemaRefs (Index cycleDoc) (Some nodeSchema) [] = [''#/components/schemas/Node'']"
    by code_simp
  have "collectSchemaRefs_fuel 2 (Index cycleDoc) (Some nodeSchema) [] = Some [''#/components/schemas/Node'']"
    "collectSchemaRefs_fuel 1 (Index cycleDoc) (Some nodeSchema) [] = None"
    by code_simp+
  then show ?thesis
    using collectSchemaRefs_terminates[of "Index cycleDoc" "Some nodeSchema" "[]" 0] e r by simp
qed

lemma total_returns: "returns idx n (\<lambda>s rs. Some (collectSchemaRefs idx s rs))"
  by (simp add: returns_def collectSchemaRefs_superset)

lemma collectProperties_total:
  "\<exists>r. collectProperties (\<lambda>s rs. Some (collectSchemaRefs idx s rs)) idx (Properties s) rs = Some r
       \<and> set rs \<subseteq> set r"
  using collectProperties_returns[OF total_returns, of "Properties s" "size s" idx rs "size s + indexWeight idx rs"]
    size_Properties by blast

lemma collectDynamic_total:
  "\<exists>f. collectDynamic (\<lambda>s rs. Some (collectSchemaRefs idx s rs)) idx dv rs = Some f
       \<and> set rs \<subseteq> set (case f of Continue r \<Rightarrow> r | Return r \<Rightarrow> r)"
proof -
  define m where "m = (case dv of Some (DynA p) \<Rightarrow> Suc (size p) | _ \<Rightarrow> 0)"
  have "\<And>p. dv = Some (DynA p) \<Longrightarrow> Suc (size p) \<le> m" by (simp add: m_def)
  from collectDynamic_returns[where idx = idx and n = "m + indexWeight idx rs" and rs = rs
      and dv = dv and m = m, OF total_returns this]
  show ?thesis by simp
qed

lemma collectDynamic_recorded:
  "a \<noteq> NilProxy \<Longrightarrow> GetReference a \<noteq> [] \<Longrightarrow> GetReference a \<in> set rs
     \<Longrightarrow> collectDynamic rec idx (Some (DynA a)) rs = Some (Return rs)"
  by (simp add: collectDynamic_def)

lemma body_returns_at_items:
  assumes "Items s = Some (DynA a)" "a \<noteq> NilProxy" "GetReference a \<noteq> []" "GetReference a \<in> set refSet"
  shows "collectSchemaRefs_body (\<lambda>s rs. Some (collectSchemaRefs idx s rs)) idx (Some s) refSet =
    (if Reference s \<noteq> [] \<and> Reference s \<in> set refSet then Some refSet
     else collectProperties (\<lambda>s rs. Some (collectSchemaRefs idx s rs)) idx (Properties s)
            (if Reference s \<noteq> [] then addParentSchemaRef (Reference s) (List.insert (Reference s) refSet)
             else refSet))"
proof (cases "Reference s \<noteq> [] \<and> Reference s \<in> set refSet")
  case True
  then show ?thesis by (simp add: collectSchemaRefs_body_def)
next
  case False
  let ?rs0 = "if Reference s \<noteq> [] then addParentSchemaRef (Reference s) (List.insert (Reference s) refSet) else refSet"
  from collectProperties_total[of idx s ?rs0]
  obtain rs1 where rs1: "collectProperties (\<lambda>s rs. Some (collectSchemaRefs idx s rs)) idx (Properties s) ?rs0 = Some rs1"
    "set ?rs0 \<subseteq> set rs1" by blast
  have "set refSet \<subseteq> set ?rs0" by (auto intro: in_addParentSchemaRef)
  with rs1(2) assms(4) have "GetReference a \<in> set rs1" by blast
  from collectDynamic_recorded[OF assms(2,3) this]
  show ?thesis using False rs1(1) assms(1)
    by (auto simp: collectSchemaRefs_body_def Let_def)
qed

lemma body_returns_at_additionalProperties:
  assumes "AdditionalProperties s = Some (DynA a)" "a \<noteq> NilProxy" "GetReference a \<noteq> []"
    "GetReference a \<in> set refSet"
  shows "collectSchemaRefs_body (\<lambda>s rs. Some (collectSchemaRefs idx s rs)) idx (Some s) refSet =
    (if Reference s \<noteq> [] \<and> Reference s \<in> set refSet then Some refSet
     else case collectProperties (\<lambda>s rs. Some (collectSchemaRefs idx s rs)) idx (Properties s)
            (if Reference s \<noteq> [] then addParentSchemaRef (Reference s) (List.insert (Reference s) refSet)
             else refSet) of
          None \<Rightarrow> None
        | Some rs1 \<Rightarrow> map_option flowSet
             (collectDynamic (\<lambda>s rs. Some (collectSchemaRefs idx s rs)) idx (Items s) rs1))"
proof (cases "Reference s \<noteq> [] \<and> Reference s \<in> set refSet")
  case True
  then show ?thesis by (simp add: collectSchemaRefs_body_def)
next
  case False
  let ?rs0 = "if Reference s \<noteq> [] then addParentSchemaRef (Reference s) (List.insert (Reference s) refSet) else refSet"
  from collectProperties_total[of idx s ?rs0]
  obtain rs1 where rs1: "collectProperties (\<lambda>s rs. Some (collectSchemaRefs idx s rs)) idx (Properties s) ?rs0 = Some rs1"
    "set ?rs0 \<subseteq> set rs1" by blast
  have "set refSet \<subseteq> set ?rs0" by (auto intro: in_addParentSchemaRef)
  with rs1(2) assms(4) have in1: "GetReference a \<in> set rs1" by blast
  from collectDynamic_total[of idx "Items s" rs1]
  obtain f2 where f2: "collectDynamic (\<lambda>s rs. Some (collectSchemaRefs idx s rs)) idx (Items s) rs1 = Some f2"
    "set rs1 \<subseteq> set (case f2 of Continue r \<Rightarrow> r | Return r \<Rightarrow> r)" by blast
  show ?thesis
  proof (cases f2)
    case (Return rs2)
    with False rs1(1) f2(1) show ?thesis
      by (auto simp: collectSchemaRefs_body_def Let_def flowSet_def)
  next
    case (Continue rs2)
    with f2(2) in1 have "GetReference a \<in> set rs2" by auto
    from collectDynamic_recorded[OF assms(2,3) this]
    show ?thesis using False rs1(1) f2(1) Continue assms(1)
      by (auto simp: collectSchemaRefs_body_def Let_def flowSet_def)
  qed
qed

text \<open>C10. When the array-items branch of a schema carries a reference that is already in
  the reference set, \<open>collectSchemaRefs\<close> returns there: what its additionalProperties,
  allOf, oneOf, anyOf and not branches hold does not change the result, so a reference
  that stands only in them is not recorded by the call. The same holds for the
  additionalProperties branch and the composition branches after it.\<close>

theorem collectSchemaRefs_skips_remaining_branches:
  assumes "a \<noteq> NilProxy" and "GetReference a \<noteq> []" and "GetReference a \<in> set refSet"
  shows "(Items s = Some (DynA a) \<longrightarrow>
            collectSchemaRefs idx (Some s) refSet
              = collectSchemaRefs idx (Some (Schema (Reference s) (Type s) (Required s) (Properties s)
                    (Items s) ap al on an nt)) refSet)
       \<and> (AdditionalProperties s = Some (DynA a) \<longrightarrow>
            collectSchemaRefs idx (Some s) refSet
              = collectSchemaRefs idx (Some (Schema (Reference s) (Type s) (Required s) (Properties s)
                    (Items s) (AdditionalProperties s) al on an nt)) refSet)"
proof (intro conjI impI)
  assume i: "Items s = Some (DynA a)"
  let ?s' = "Schema (Reference s) (Type s) (Required s) (Properties s) (Items s) ap al on an nt"
  have "Items ?s' = Some (DynA a)" using i by simp
  then have "collectSchemaRefs_body (\<lambda>s rs. Some (collectSchemaRefs idx s rs)) idx (Some s) refSet
      = collectSchemaRefs_body (\<lambda>s rs. Some (collectSchemaRefs idx s rs)) idx (Some ?s') refSet"
    unfolding body_returns_at_items[OF i assms, of idx] body_returns_at_items[OF \<open>Items ?s' = Some (DynA a)\<close> assms, of idx]
    by simp
  then show "collectSchemaRefs idx (Some s) refSet = collectSchemaRefs idx (Some ?s') refSet"
    by (simp add: collectSchemaRefs_unfold)
next
  assume i: "AdditionalProperties s = Some (DynA a)"
  let ?s' = "Schema (Reference s) (Type s) (Required s) (Properties s) (Items s) (AdditionalProperties s) al on an nt"
  have "AdditionalProperties ?s' = Some (DynA a)" using i by simp
  then have "collectSchemaRefs_body (\<lambda>s rs. Some (collectSchemaRefs idx s rs)) idx (Some s) refSet
      = collectSchemaRefs_body (\<lambda>s rs. Some (collectSchemaRefs idx s rs)) idx (Some ?s') refSet"
    unfolding body_returns_at_additionalProperties[OF i assms, of idx]
      body_returns_at_additionalProperties[OF \<open>AdditionalProperties ?s' = Some (DynA a)\<close> assms, of idx]
    by (simp cong: option.case_cong)
  then show "collectSchemaRefs idx (Some s) refSet = collectSchemaRefs idx (Some ?s') refSet"
    by (simp add: collectSchemaRefs_unfold)
qed

lemma collect_tagList_without_rest:
  "collectSchemaRefs petIndex
     (Some (Schema [] [''array''] [] [] (Some (DynA (RefProxy ''#/components/schemas/Tag''))) None
        [] [] [] NilProxy)) [''#/components/schemas/Tag''] = [''#/components/schemas/Tag'']"
  by code_simp

lemma collect_tagMap_without_rest:
  "collectSchemaRefs petIndex
     (Some (Schema [] [''object''] [] [] None (Some (DynA (RefProxy ''#/components/schemas/Tag'')))
        [] [] [] NilProxy)) [''#/components/schemas/Tag''] = [''#/components/schemas/Tag'']"
  by code_simp

lemma collect_tagList_fresh:
  "collectSchemaRefs petIndex (Some tagList) [] = [''#/components/schemas/Leaf'', ''#/components/schemas/Tag'']"
  by code_simp

theorem collectSchemaRefs_skips_remaining_branches_witness:
  "collectSchemaRefs petIndex (Some tagList) [''#/components/schemas/Tag''] = [''#/components/schemas/Tag'']
   \<and> collectSchemaRefs petIndex (Some tagMap) [''#/components/schemas/Tag''] = [''#/components/schemas/Tag'']
   \<and> collectSchemaRefs petIndex (Some tagList) [] = [''#/components/schemas/Leaf'', ''#/components/schemas/Tag'']"
  using collectSchemaRefs_skips_remaining_branches[of "RefProxy ''#/components/schemas/Tag''"
      "[''#/components/schemas/Tag'']" tagList petIndex None "[]" "[]" "[]" NilProxy]
    collectSchemaRefs_skips_remaining_branches[of "RefProxy ''#/components/schemas/Tag''"
      "[''#/components/schemas/Tag'']" tagMap petIndex None "[]" "[]" "[]" NilProxy]
    collect_tagList_without_rest collect_tagMap_without_rest collect_tagList_fresh
  by (simp add: tagList_def tagMap_def)

section \<open>The pruning loop\<close>

lemma removeUnreferenced_filter:
  "removeUnreferenced kind refs table
     = (length (filter (\<lambda>(key, v). kind @ key \<notin> set refs) table),
        filter (\<lambda>(key, v). kind @ key \<in> set refs) table)"
  by (induction table) (auto simp: Let_def split: prod.splits)

lemma filter_all_kept:
  "length (filter (\<lambda>x. \<not> P x) xs) = 0 \<Longrightarrow> filter P xs = xs"
  by (induction xs) (auto split: if_splits)

lemma removeUnreferenced_none:
  "fst (removeUnreferenced kind refs table) = 0 \<Longrightarrow> snd (removeUnreferenced kind refs table) = table"
proof -
  assume "fst (removeUnreferenced kind refs table) = 0"
  then have "length (filter (\<lambda>x. \<not> (case x of (key, v) \<Rightarrow> kind @ key \<in> set refs)) table) = 0"
    by (simp add: removeUnreferenced_filter case_prod_unfold)
  then have "filter (\<lambda>(key, v). kind @ key \<in> set refs) table = table"
    by (rule filter_all_kept)
  then show ?thesis by (simp add: removeUnreferenced_filter)
qed

lemma removeOrphanedComponents_Some:
  "d_Components model = Some comps \<Longrightarrow>
   removeOrphanedComponents model refs =
     (fst (removeUnreferenced ''#/components/schemas/'' refs (Schemas comps))
      + fst (removeUnreferenced ''#/components/parameters/'' refs (c_Parameters comps))
      + fst (removeUnreferenced ''#/components/requestBodies/'' refs (RequestBodies comps))
      + fst (removeUnreferenced ''#/components/responses/'' refs (c_Responses comps))
      + fst (removeUnreferenced ''#/components/headers/'' refs (c_Headers comps)),
      model\<lparr>d_Components := Some (comps\<lparr>
        Schemas := snd (removeUnreferenced ''#/components/schemas/'' refs (Schemas comps)),
        c_Parameters := snd (removeUnreferenced ''#/components/parameters/'' refs (c_Parameters comps)),
        RequestBodies := snd (removeUnreferenced ''#/components/requestBodies/'' refs (RequestBodies comps)),
        c_Responses := snd (removeUnreferenced ''#/components/responses/'' refs (c_Responses comps)),
        c_Headers := snd (removeUnreferenced ''#/components/headers/'' refs (c_Headers comps))\<rparr>)\<rparr>)"
  by (simp add: removeOrphanedComponents_def case_prod_unfold Let_def)

lemma removeOrphanedComponents_none:
  assumes "fst (removeOrphanedComponents model refs) = 0"
  shows "snd (removeOrphanedComponents model refs) = model"
proof (cases "d_Components model")
  case None
  then show ?thesis by (simp add: removeOrphanedComponents_def)
next
  case (Some comps)
  note eq = removeOrphanedComponents_Some[OF Some, of refs]
  with assms have z:
    "fst (removeUnreferenced ''#/components/schemas/'' refs (Schemas comps)) = 0"
    "fst (removeUnreferenced ''#/components/parameters/'' refs (c_Parameters comps)) = 0"
    "fst (removeUnreferenced ''#/components/requestBodies/'' refs (RequestBodies comps)) = 0"
    "fst (removeUnreferenced ''#/components/responses/'' refs (c_Responses comps)) = 0"
    "fst (removeUnreferenced ''#/components/headers/'' refs (c_Headers comps)) = 0"
    by simp_all
  note k = z[THEN removeUnreferenced_none]
  show ?thesis using Some by (simp add: eq k)
qed

lemma pruneStep_none: "fst (pruneStep model) = 0 \<Longrightarrow> pruneStep model = (0, model)"
  unfolding pruneStep_def
  using removeOrphanedComponents_none[of model "findOperationRefs model"]
  by (simp add: prod_eq_iff)

lemma pruneLoop_unfold:
  "pruneLoop iteration model =
    (if Suc iteration > maxIterations then (model, Some errMaxIterations)
     else if fst (pruneStep model) < 1 then (snd (pruneStep model), None)
     else pruneLoop (Suc iteration) (snd (pruneStep model)))"
  by (subst pruneLoop.simps) (simp add: Let_def case_prod_unfold)

lemma afterIterations_Suc: "afterIterations (Suc k) model = afterIterations k (snd (pruneStep model))"
  by (simp only: afterIterations_def funpow_Suc_right o_apply)

lemma removedAt_Suc: "removedAt (Suc k) model = removedAt k (snd (pruneStep model))"
  by (simp add: removedAt_def afterIterations_Suc)

lemma pruneLoop_fixpoint:
  "iteration + k < maxIterations \<Longrightarrow> (\<And>j. j < k \<Longrightarrow> 1 \<le> removedAt j model) \<Longrightarrow> removedAt k model = 0
     \<Longrightarrow> pruneLoop iteration model = (afterIterations k model, None)"
proof (induction k arbitrary: iteration model)
  case 0
  then have z: "fst (pruneStep model) = 0" by (simp add: removedAt_def afterIterations_def)
  from pruneStep_none[OF this] 0 show ?case
    by (subst pruneLoop_unfold) (simp add: afterIterations_def)
next
  case (Suc k)
  from Suc.prems(2)[of 0] have pos: "1 \<le> fst (pruneStep model)"
    by (simp add: removedAt_def afterIterations_def)
  have "pruneLoop (Suc iteration) (snd (pruneStep model)) = (afterIterations k (snd (pruneStep model)), None)"
  proof (rule Suc.IH)
    show "Suc iteration + k < maxIterations" using Suc.prems(1) by simp
    show "removedAt k (snd (pruneStep model)) = 0" using Suc.prems(3) by (simp add: removedAt_Suc)
    fix j assume "j < k"
    then show "1 \<le> removedAt j (snd (pruneStep model))"
      using Suc.prems(2)[of "Suc j"] by (simp add: removedAt_Suc)
  qed
  with pos Suc.prems(1) show ?case
    by (subst pruneLoop_unfold) (simp add: afterIterations_Suc)
qed

lemma pruneLoop_cap:
  "iteration + k = maxIterations \<Longrightarrow> (\<And>j. j < k \<Longrightarrow> 1 \<le> removedAt j model)
     \<Longrightarrow> pruneLoop iteration model = (afterIterations k model, Some errMaxIterations)"
proof (induction k arbitrary: iteration model)
  case 0
  then show ?case
    by (subst pruneLoop_unfold) (simp add: afterIterations_def)
next
  case (Suc k)
  from Suc.prems(2)[of 0] have pos: "1 \<le> fst (pruneStep model)"
    by (simp add: removedAt_def afterIterations_def)
  have "pruneLoop (Suc iteration) (snd (pruneStep model))
      = (afterIterations k (snd (pruneStep model)), Some errMaxIterations)"
  proof (rule Suc.IH)
    show "Suc iteration + k = maxIterations" using Suc.prems(1) by simp
    fix j assume "j < k"
    then show "1 \<le> removedAt j (snd (pruneStep model))"
      using Suc.prems(2)[of "Suc j"] by (simp add: removedAt_Suc)
  qed
  with pos Suc.prems(1) show ?case
    by (subst pruneLoop_unfold) (simp add: afterIterations_Suc)
qed

lemma showDec_1000: "showDec 1000 = ''1000''"
  by code_simp

lemma errMaxIterations_message:
  "errMaxIterations = Errorf ''pruning exceeded maximum iterations (1000), possible infinite loop''"
  by (simp add: errMaxIterations_def maxIterations_def showDec_1000)

lemma pruneLoop_returns_fixpoint:
  "pruneLoop iteration model = (model', None) \<Longrightarrow> pruneStep model' = (0, model')"
proof (induction iteration model rule: pruneLoop.induct)
  case (1 iteration model)
  show ?case
  proof (cases "Suc iteration > maxIterations")
    case True
    with "1.prems" show ?thesis by (subst (asm) pruneLoop_unfold) simp
  next
    case cap: False
    show ?thesis
    proof (cases "fst (pruneStep model) < 1")
      case True
      then have "pruneStep model = (0, model)" by (simp add: pruneStep_none)
      moreover from "1.prems" cap True have "model' = snd (pruneStep model)"
        by (subst (asm) pruneLoop_unfold) simp
      ultimately show ?thesis by simp
    next
      case False
      from "1.prems" cap False have "pruneLoop (Suc iteration) (snd (pruneStep model)) = (model', None)"
        by (subst (asm) pruneLoop_unfold) simp
      with "1.IH"[of "iteration + 1" "pruneStep model" "fst (pruneStep model)" "snd (pruneStep model)"]
        cap False
      show ?thesis by simp
    qed
  qed
qed

lemma pruneLoop_preserves:
  assumes step: "\<And>m. P m \<Longrightarrow> P (snd (pruneStep m))"
  shows "P model \<Longrightarrow> P (fst (pruneLoop iteration model))"
proof (induction iteration model rule: pruneLoop.induct)
  case (1 iteration model)
  show ?case
  proof (cases "Suc iteration > maxIterations")
    case True
    with "1.prems" show ?thesis by (subst pruneLoop_unfold) simp
  next
    case cap: False
    show ?thesis
    proof (cases "fst (pruneStep model) < 1")
      case True
      with cap step[OF "1.prems"] show ?thesis by (subst pruneLoop_unfold) simp
    next
      case False
      from "1.IH"[of "iteration + 1" "pruneStep model" "fst (pruneStep model)" "snd (pruneStep model)"]
        cap False step[OF "1.prems"]
      have "P (fst (pruneLoop (Suc iteration) (snd (pruneStep model))))" by simp
      with cap False show ?thesis by (subst pruneLoop_unfold) simp
    qed
  qed
qed

lemma ungeneratedDropped_dropUngenerated: "ungeneratedDropped (dropUngenerated model)"
  by (cases "d_Components model") (simp_all add: ungeneratedDropped_def dropUngenerated_def)

lemma dropUngenerated_id: "ungeneratedDropped model \<Longrightarrow> dropUngenerated model = model"
proof (cases "d_Components model")
  case None
  assume "ungeneratedDropped model"
  with None show ?thesis by (cases model) (simp add: ungeneratedDropped_def dropUngenerated_def)
next
  case (Some comps)
  assume "ungeneratedDropped model"
  with Some show ?thesis
    by (cases model; cases comps) (simp add: ungeneratedDropped_def dropUngenerated_def)
qed

lemma ungeneratedDropped_pruneStep:
  "ungeneratedDropped model \<Longrightarrow> ungeneratedDropped (snd (pruneStep model))"
proof (cases "d_Components model")
  case None
  assume "ungeneratedDropped model"
  with None show ?thesis by (simp add: pruneStep_def removeOrphanedComponents_def)
next
  case (Some comps)
  assume "ungeneratedDropped model"
  with Some show ?thesis
    by (simp add: pruneStep_def removeOrphanedComponents_Some[OF Some] ungeneratedDropped_def)
qed

lemma ungeneratedDropped_pruneLoop:
  "ungeneratedDropped model \<Longrightarrow> ungeneratedDropped (fst (pruneLoop iteration model))"
  using ungeneratedDropped_pruneStep by (rule pruneLoop_preserves)

lemma pruneSchema_petStoreFull: "pruneSchema (Inr petStoreFull) = (Inr petStorePruned, None)"
  by code_simp

text \<open>C8. Pruning is idempotent: when \<open>pruneSchema\<close> has returned nil, running it again on
  the model it left deletes nothing in its first iteration, returns nil, and leaves the
  model as it is.\<close>

theorem pruning_idempotent:
  assumes "pruneSchema doc = (doc', None)"
  shows "\<exists>model'. doc' = Inr model' \<and> removedAt 0 (dropUngenerated model') = 0
           \<and> pruneSchema doc' = (doc', None)"
proof (cases doc)
  case (Inl msg)
  with assms show ?thesis by (simp add: pruneSchema_def)
next
  case (Inr model)
  obtain model' err where loop: "pruneLoop 0 (dropUngenerated model) = (model', err)"
    by (cases "pruneLoop 0 (dropUngenerated model)")
  with assms Inr have doc': "doc' = Inr model'" and err: "err = None"
    by (simp_all add: pruneSchema_def)
  from loop err have "pruneLoop 0 (dropUngenerated model) = (model', None)" by simp
  then have fp: "pruneStep model' = (0, model')"
    by (rule pruneLoop_returns_fixpoint)
  have "ungeneratedDropped model'"
    using ungeneratedDropped_pruneLoop[OF ungeneratedDropped_dropUngenerated, of 0 model] loop by simp
  then have same: "dropUngenerated model' = model'" by (rule dropUngenerated_id)
  have "pruneLoop 0 model' = (model', None)"
    using fp by (subst pruneLoop_unfold) (simp add: maxIterations_def)
  with same fp doc' show ?thesis
    by (simp add: pruneSchema_def removedAt_def afterIterations_def)
qed

theorem pruning_idempotent_witness:
  "pruneSchema (Inr petStoreFull) = (Inr petStorePruned, None)
   \<and> petStorePruned \<noteq> petStoreFull
   \<and> (\<exists>model'. Inr petStorePruned = (Inr model' :: libopenapi_Document)
         \<and> removedAt 0 (dropUngenerated model') = 0
         \<and> pruneSchema (Inr petStorePruned) = (Inr petStorePruned, None))"
  using pruning_idempotent[OF pruneSchema_petStoreFull] pruneSchema_petStoreFull
  by (simp add: petStorePruned_def petStoreFull_def petStore_def petComponents_def)



lemma findOperationRefs_petStorePruned:
  "findOperationRefs petStorePruned = [''#/components/schemas/Pet'', ''#/components/schemas/Tag'']"
  by code_simp

lemma pruneStep_petStoreFull:
  "pruneStep petStoreFull = (1, petStore [(''Pet'', InlineProxy petObject), (''Tag'', InlineProxy tagObject),
     (''Leaf'', InlineProxy tagObject)])"
  by code_simp

lemma findOperationRefs_petStoreFull:
  "findOperationRefs petStoreFull = [''#/components/schemas/Leaf'', ''#/components/schemas/Pet'', ''#/components/schemas/Tag'']"
  by code_simp





subsection \<open>What the walk records\<close>


























subsection \<open>A chain that takes a thousand passes\<close>

lemma collectSchemaRefs_None: "collectSchemaRefs idx None refSet = refSet"
  using collectSchemaRefs_unfold[of idx None refSet] by (simp add: collectSchemaRefs_body_def)

lemma collectSchemaRefs_emptySchema: "collectSchemaRefs idx (Some emptySchema) refSet = refSet"
  using collectSchemaRefs_unfold[of idx "Some emptySchema" refSet]
  by (simp add: collectSchemaRefs_body_def emptySchema_def collectDynamic_def)

lemma map_of_constant:
  "map_of (map (\<lambda>i. (f i, c)) xs) r = None \<or> map_of (map (\<lambda>i. (f i, c)) xs) r = Some c"
  by (induction xs) auto

lemma chainRef_inj: "chainRef i = chainRef j \<longleftrightarrow> i = j"
proof
  assume "chainRef i = chainRef j"
  then have "replicate i (CHR ''x'') = replicate j (CHR ''x'')"
    by (simp add: chainRef_def chainName_def)
  then have "length (replicate i (CHR ''x'')) = length (replicate j (CHR ''x''))" by simp
  then show "i = j" by simp
qed simp

lemma chainRef_nonempty: "chainRef i \<noteq> []"
  by (simp add: chainRef_def)

lemma collectComponentSchema_alias:
  "collectComponentSchema (Index (chainDoc k)) (RefProxy (chainRef j)) refSet = List.insert (chainRef j) refSet"
  using map_of_constant[of chainRef emptySchema "[0..<maxIterations]" "chainRef j"]
  by (auto simp: collectComponentSchema_def chainDoc_def addRef_def chainRef_nonempty
      collectSchemaRefs_None collectSchemaRefs_emptySchema)

lemma collectComponentSchema_inline_empty:
  "collectComponentSchema idx (InlineProxy emptySchema) refSet = refSet"
  by (simp add: collectComponentSchema_def addRef_def collectSchemaRefs_emptySchema)

lemma fold_aliases:
  "set (fold (\<lambda>(name, schemaProxy). collectComponentSchema (Index (chainDoc k)) schemaProxy)
          (map chainAlias xs) refSet)
     = set refSet \<union> (\<lambda>i. chainRef (Suc i)) ` set xs"
  by (induction xs arbitrary: refSet) (auto simp: chainAlias_def collectComponentSchema_alias)

lemma set_findOperationRefs_chainDoc:
  assumes "k < maxIterations"
  shows "set (findOperationRefs (chainDoc k)) = (\<lambda>i. chainRef (Suc i)) ` {k..<maxIterations - 1}"
proof -
  have paths: "fold (\<lambda>(path, pathItem). collectPathItem (Index (chainDoc k)) pathItem)
      [(''/ping'', \<lparr>pi_Parameters = [], Operations = [(''get'', pingOp)]\<rparr>)] [] = []"
    by (simp add: collectPathItem_def collectOperation_def pingOp_def)
  have "findOperationRefs (chainDoc k)
      = sort (collectComponents (Index (chainDoc k)) (petComponents (chainSchemas k)) [])"
    using paths by (simp add: findOperationRefs_def chainDoc_def)
  also have "set \<dots> = set (fold (\<lambda>(name, schemaProxy). collectComponentSchema (Index (chainDoc k)) schemaProxy)
          (chainSchemas k) [])"
    by (simp add: collectComponents_def petComponents_def)
  also have "\<dots> = (\<lambda>i. chainRef (Suc i)) ` {k..<maxIterations - 1}"
    using assms by (simp add: chainSchemas_def fold_aliases collectComponentSchema_inline_empty)
  finally show ?thesis .
qed

lemma recorded_chainDoc:
  assumes "k < maxIterations"
  shows "(''#/components/schemas/'' @ chainName i \<in> set (findOperationRefs (chainDoc k)))
           \<longleftrightarrow> (k < i \<and> i < maxIterations)"
proof -
  have "(''#/components/schemas/'' @ chainName i \<in> set (findOperationRefs (chainDoc k)))
      \<longleftrightarrow> chainRef i \<in> (\<lambda>j. chainRef (Suc j)) ` {k..<maxIterations - 1}"
    using set_findOperationRefs_chainDoc[OF assms] by (simp add: chainRef_def)
  also have "\<dots> \<longleftrightarrow> (\<exists>j. k \<le> j \<and> j < maxIterations - 1 \<and> i = Suc j)"
    by (auto simp: chainRef_inj)
  also have "\<dots> \<longleftrightarrow> (k < i \<and> i < maxIterations)"
  proof
    assume "\<exists>j. k \<le> j \<and> j < maxIterations - 1 \<and> i = Suc j"
    then show "k < i \<and> i < maxIterations" by auto
  next
    assume "k < i \<and> i < maxIterations"
    then have "k \<le> i - 1 \<and> i - 1 < maxIterations - 1 \<and> i = Suc (i - 1)" by auto
    then show "\<exists>j. k \<le> j \<and> j < maxIterations - 1 \<and> i = Suc j" by blast
  qed
  finally show ?thesis .
qed

lemma filter_chainAlias:
  assumes "\<And>i v. P (chainName i, v) \<longleftrightarrow> Q i"
  shows "filter P (map chainAlias xs) = map chainAlias (filter Q xs)"
  by (induction xs) (simp_all add: chainAlias_def assms)

lemma sweep_chainSchemas:
  assumes k: "k < maxIterations"
  shows "removeUnreferenced ''#/components/schemas/'' (findOperationRefs (chainDoc k)) (chainSchemas k)
           = (1, chainSchemas (Suc k))"
proof -
  define P :: "string \<times> SchemaProxy \<Rightarrow> bool"
    where "P = (\<lambda>(key, v). ''#/components/schemas/'' @ key \<in> set (findOperationRefs (chainDoc k)))"
  define Q where "Q = (\<lambda>i. k < i \<and> i < maxIterations)"
  have PQ: "P (chainName i, v) \<longleftrightarrow> Q i" for i v
    unfolding P_def Q_def using recorded_chainDoc[OF k, of i] by simp
  have nPQ: "(\<lambda>x. \<not> P x) (chainName i, v) \<longleftrightarrow> (\<lambda>i. \<not> Q i) i" for i v
    using PQ by simp
  have allQ: "filter Q [Suc k..<maxIterations - 1] = [Suc k..<maxIterations - 1]"
    "filter (\<lambda>i. \<not> Q i) [Suc k..<maxIterations - 1] = []"
    by (auto simp: Q_def filter_id_conv filter_empty_conv)
  have tail: "filter P (map chainAlias [Suc k..<maxIterations - 1]) = map chainAlias [Suc k..<maxIterations - 1]"
    "filter (\<lambda>x. \<not> P x) (map chainAlias [Suc k..<maxIterations - 1]) = []"
    by (simp_all only: filter_chainAlias[of P Q, OF PQ]
          filter_chainAlias[of "\<lambda>x. \<not> P x" "\<lambda>i. \<not> Q i", OF nPQ] allQ list.map)
  have sweep: "removeUnreferenced ''#/components/schemas/'' (findOperationRefs (chainDoc k)) table
      = (length (filter (\<lambda>x. \<not> P x) table), filter P table)" for table
    unfolding P_def by (simp add: removeUnreferenced_filter case_prod_unfold)
  show ?thesis
  proof (cases "k < maxIterations - 1")
    case True
    then have split: "[k..<maxIterations - 1] = k # [Suc k..<maxIterations - 1]"
      by (simp add: upt_conv_Cons)
    have head: "\<not> P (chainAlias k)" using PQ[of k] by (simp add: chainAlias_def Q_def)
    have last: "P (chainName (maxIterations - 1), InlineProxy emptySchema)"
      using PQ[of "maxIterations - 1"] True by (simp add: Q_def)
    have "chainSchemas k = chainAlias k # map chainAlias [Suc k..<maxIterations - 1]
        @ [(chainName (maxIterations - 1), InlineProxy emptySchema)]"
      using k split by (simp add: chainSchemas_def)
    moreover have "chainSchemas (Suc k) = map chainAlias [Suc k..<maxIterations - 1]
        @ [(chainName (maxIterations - 1), InlineProxy emptySchema)]"
      using True by (simp add: chainSchemas_def)
    ultimately show ?thesis
      using head last tail sweep[of "chainSchemas k"] by simp
  next
    case False
    with k have eq: "k = maxIterations - 1" by simp
    have last: "\<not> P (chainName (maxIterations - 1), InlineProxy emptySchema)"
      using PQ[of "maxIterations - 1"] eq by (simp add: Q_def)
    have "chainSchemas k = [(chainName (maxIterations - 1), InlineProxy emptySchema)]"
      using k eq by (simp add: chainSchemas_def)
    moreover have "chainSchemas (Suc k) = []"
      using eq k by (simp add: chainSchemas_def)
    ultimately show ?thesis
      using last sweep[of "chainSchemas k"] by simp
  qed
qed

lemma pruneStep_chainDoc:
  assumes "k < maxIterations"
  shows "pruneStep (chainDoc k) = (1, chainDoc (Suc k))"
proof -
  have c: "d_Components (chainDoc k) = Some (petComponents (chainSchemas k))"
    by (simp add: chainDoc_def)
  have "pruneStep (chainDoc k)
      = (1, (chainDoc k)\<lparr>d_Components := Some (petComponents (chainSchemas (Suc k)))\<rparr>)"
    unfolding pruneStep_def removeOrphanedComponents_Some[OF c]
    by (simp add: sweep_chainSchemas[OF assms] petComponents_def)
  moreover have "(chainDoc k)\<lparr>d_Components := Some (petComponents (chainSchemas (Suc k)))\<rparr> = chainDoc (Suc k)"
    by (simp add: chainDoc_def)
  ultimately show ?thesis by simp
qed

lemma afterIterations_step: "afterIterations (Suc k) model = snd (pruneStep (afterIterations k model))"
  by (simp add: afterIterations_def)

lemma afterIterations_chainDoc:
  "j \<le> maxIterations \<Longrightarrow> afterIterations j (chainDoc 0) = chainDoc j"
proof (induction j)
  case 0
  show ?case by (simp add: afterIterations_def)
next
  case (Suc j)
  then have "afterIterations j (chainDoc 0) = chainDoc j" and "j < maxIterations" by simp_all
  then show ?case
    by (simp only: afterIterations_step pruneStep_chainDoc snd_conv)
qed

lemma removedAt_chainDoc: "j < maxIterations \<Longrightarrow> removedAt j (chainDoc 0) = 1"
  by (simp only: removedAt_def afterIterations_chainDoc less_imp_le pruneStep_chainDoc fst_conv)

lemma dropUngenerated_chainDoc: "dropUngenerated (chainDoc k) = chainDoc k"
  by (simp add: dropUngenerated_def chainDoc_def petComponents_def)

subsection \<open>Fixpoint or cap\<close>

lemma pruneStep_petStoreMid:
  "pruneStep (petStore [(''Pet'', InlineProxy petObject), (''Tag'', InlineProxy tagObject),
     (''Leaf'', InlineProxy tagObject)]) = (1, petStorePruned)"
  by code_simp

lemma pruneStep_petStorePruned: "pruneStep petStorePruned = (0, petStorePruned)"
  by code_simp

lemma dropUngenerated_petStoreFull: "dropUngenerated petStoreFull = petStoreFull"
  by (simp add: dropUngenerated_def petStoreFull_def petStore_def petComponents_def)

lemma afterIterations_0: "afterIterations 0 model = model"
  by (simp add: afterIterations_def)

lemma removedAt_petStoreFull:
  "removedAt 0 (dropUngenerated petStoreFull) = 1"
  "removedAt (Suc 0) (dropUngenerated petStoreFull) = 1"
  "removedAt (Suc (Suc 0)) (dropUngenerated petStoreFull) = 0"
  "afterIterations (Suc (Suc 0)) (dropUngenerated petStoreFull) = petStorePruned"
  by (simp_all only: removedAt_def afterIterations_Suc afterIterations_0 dropUngenerated_petStoreFull
      pruneStep_petStoreFull pruneStep_petStoreMid pruneStep_petStorePruned fst_conv snd_conv)

lemma pruneLoop_chainDoc: "pruneLoop 0 (chainDoc 0) = (chainDoc 1000, Some errMaxIterations)"
proof -
  have "pruneLoop 0 (chainDoc 0) = (afterIterations 1000 (chainDoc 0), Some errMaxIterations)"
  proof (rule pruneLoop_cap)
    show "0 + 1000 = maxIterations" by (simp add: maxIterations_def)
    fix j :: nat assume "j < 1000"
    then show "1 \<le> removedAt j (chainDoc 0)" by (simp add: removedAt_chainDoc maxIterations_def)
  qed
  moreover have "afterIterations 1000 (chainDoc 0) = chainDoc 1000"
    by (rule afterIterations_chainDoc) (simp add: maxIterations_def)
  ultimately show ?thesis by simp
qed

lemma componentRefs_chainDoc:
  "length (componentRefs (chainDoc 0)) = 1000" "componentRefs (chainDoc 1000) = []"
  by (simp_all add: componentRefs_def chainDoc_def petComponents_def chainSchemas_def maxIterations_def)

text \<open>C7, as the spec states it, fails in its last part: when the cap is exceeded, what the
  passes have done is not taken back. On the chain of a thousand aliases \<open>pruneSchema\<close>
  returns the error, and the model it worked on, which had a thousand named schemas, is
  left with none.\<close>

theorem cap_leaves_model_pruned:
  "pruneSchema (Inr (chainDoc 0))
     = (Inr (chainDoc 1000),
        Some (Errorf ''pruning exceeded maximum iterations (1000), possible infinite loop''))
   \<and> length (componentRefs (chainDoc 0)) = 1000
   \<and> componentRefs (chainDoc 1000) = []"
  using pruneLoop_chainDoc componentRefs_chainDoc
  by (simp add: pruneSchema_def dropUngenerated_chainDoc errMaxIterations_message)

text \<open>C7, amended. The loop stops at the first pass that deletes nothing and \<open>pruneSchema\<close>
  returns nil; when each of the first 1000 passes deletes a component, \<open>pruneSchema\<close> returns
  the error whose message states the cap of 1000, and no other value. The deletions are
  made in place and are not undone: in both cases the model is left as the passes made
  it, after 1000 of them when the cap is exceeded.\<close>

theorem pruneSchema_stops_or_hits_cap:
  "(k < 1000 \<and> (\<forall>j<k. 1 \<le> removedAt j (dropUngenerated model))
      \<and> removedAt k (dropUngenerated model) = 0
      \<longrightarrow> pruneSchema (Inr model) = (Inr (afterIterations k (dropUngenerated model)), None))
   \<and> ((\<forall>j<1000. 1 \<le> removedAt j (dropUngenerated model))
      \<longrightarrow> pruneSchema (Inr model)
            = (Inr (afterIterations 1000 (dropUngenerated model)),
               Some (Errorf ''pruning exceeded maximum iterations (1000), possible infinite loop'')))"
proof (intro conjI impI)
  assume a: "k < 1000 \<and> (\<forall>j<k. 1 \<le> removedAt j (dropUngenerated model))
      \<and> removedAt k (dropUngenerated model) = 0"
  have "pruneLoop 0 (dropUngenerated model) = (afterIterations k (dropUngenerated model), None)"
  proof (rule pruneLoop_fixpoint)
    show "0 + k < maxIterations" using a by (simp add: maxIterations_def)
    show "removedAt k (dropUngenerated model) = 0" using a by simp
    fix j assume "j < k"
    with a show "1 \<le> removedAt j (dropUngenerated model)" by simp
  qed
  then show "pruneSchema (Inr model) = (Inr (afterIterations k (dropUngenerated model)), None)"
    by (simp add: pruneSchema_def)
next
  assume a: "\<forall>j<1000. 1 \<le> removedAt j (dropUngenerated model)"
  have "pruneLoop 0 (dropUngenerated model)
      = (afterIterations 1000 (dropUngenerated model), Some errMaxIterations)"
  proof (rule pruneLoop_cap)
    show "0 + 1000 = maxIterations" by (simp add: maxIterations_def)
    fix j :: nat assume "j < 1000"
    with a show "1 \<le> removedAt j (dropUngenerated model)" by simp
  qed
  then show "pruneSchema (Inr model)
            = (Inr (afterIterations 1000 (dropUngenerated model)),
               Some (Errorf ''pruning exceeded maximum iterations (1000), possible infinite loop''))"
    by (simp add: pruneSchema_def errMaxIterations_message)
qed

theorem pruneSchema_stops_or_hits_cap_witness:
  "pruneSchema (Inr petStoreFull) = (Inr petStorePruned, None)
   \<and> pruneSchema (Inr (chainDoc 0))
       = (Inr (chainDoc 1000),
          Some (Errorf ''pruning exceeded maximum iterations (1000), possible infinite loop''))"
proof -
  have "\<forall>j<2. 1 \<le> removedAt j (dropUngenerated petStoreFull)"
    by (simp add: less_Suc_eq numeral_2_eq_2 removedAt_petStoreFull)
  moreover have "\<forall>j<1000. 1 \<le> removedAt j (dropUngenerated (chainDoc 0))"
    by (simp add: dropUngenerated_chainDoc removedAt_chainDoc maxIterations_def)
  moreover have "afterIterations 1000 (chainDoc 0) = chainDoc 1000"
    by (rule afterIterations_chainDoc) (simp add: maxIterations_def)
  ultimately show ?thesis
    using pruneSchema_stops_or_hits_cap[of 2 petStoreFull] pruneSchema_stops_or_hits_cap[of 0 "chainDoc 0"]
    by (simp add: numeral_2_eq_2 removedAt_petStoreFull dropUngenerated_chainDoc)
qed

subsection \<open>A used schema that is pruned\<close>

text \<open>The early return of \<open>collectSchemaRefs\<close> reaches the pruner: \<open>Leaf\<close> stands in the
  \<open>allOf\<close> of the response schema of the only operation, after an items reference that the
  parameter has already recorded, and pruning deletes it.\<close>

lemma pruneSchema_tagStore:
  "pruneSchema (Inr (tagStore [(''Tag'', InlineProxy tagObject), (''Leaf'', InlineProxy tagObject)]))
     = (Inr (tagStore [(''Tag'', InlineProxy tagObject)]), None)"
  by code_simp

lemma reachable_Leaf:
  "reachable (tagStore [(''Tag'', InlineProxy tagObject), (''Leaf'', InlineProxy tagObject)])
     ''#/components/schemas/Leaf''"
proof (rule reachable.used_schema)
  let ?resp = "\<lparr>r_Reference = [], r_Content = [(''application/json'', \<lparr>mt_Schema = InlineProxy tagList\<rparr>)],
                   r_Headers = []\<rparr>"
  show "ResponseProxy ?resp \<in> set (survivingUses (tagStore [(''Tag'', InlineProxy tagObject), (''Leaf'', InlineProxy tagObject)]))"
    by (simp add: survivingUses_def tagStore_def operationUses_def listTags_def)
  show "InlineProxy tagList \<in> set (heldSchemas (ResponseProxy ?resp))" by simp
  show "occursIn ''#/components/schemas/Leaf'' (InlineProxy tagList)"
    by (rule occurs_allOf[of "RefProxy ''#/components/schemas/Leaf''"])
       (simp_all add: tagList_def occurs_ref)
qed

lemma early_return_prunes_used_schema:
  "pruneSchema (Inr (tagStore [(''Tag'', InlineProxy tagObject), (''Leaf'', InlineProxy tagObject)]))
     = (Inr (tagStore [(''Tag'', InlineProxy tagObject)]), None)
   \<and> componentRefs (tagStore [(''Tag'', InlineProxy tagObject)]) = [''#/components/schemas/Tag'']
   \<and> reachable (tagStore [(''Tag'', InlineProxy tagObject), (''Leaf'', InlineProxy tagObject)])
         ''#/components/schemas/Leaf''"
  using pruneSchema_tagStore reachable_Leaf
  by (simp add: componentRefs_def tagStore_def petComponents_def)

section \<open>What pruning keeps\<close>

subsection \<open>What a walk is certain to record\<close>

lemma certain_step:
  assumes "certain idx r p"
  shows "p \<noteq> NilProxy"
    and "GetReference p \<noteq> [] \<Longrightarrow> GetReference p = r"
    and "GetReference p = [] \<Longrightarrow> r \<in> set (collectSchemaRefs idx (Schema_of idx p) rs)"
  using assms by (cases p; simp add: certain_def)+

lemma collectProperties_total2:
  "\<exists>rs'. collectProperties (walk idx) idx props rs = Some rs' \<and> set rs \<subseteq> set rs'"
proof (induction props arbitrary: rs)
  case Nil
  show ?case by simp
next
  case (Cons a props)
  obtain nm q where a: "a = (nm, q)" by (cases a)
  let ?rs0 = "if GetReference q \<noteq> [] then addParentSchemaRef (GetReference q) (List.insert (GetReference q) rs) else rs"
  have up: "set rs \<subseteq> set ?rs0" by (auto intro: in_addParentSchemaRef)
  have w: "set ?rs0 \<subseteq> set (collectSchemaRefs idx (Schema_of idx q) ?rs0)"
    by (rule collectSchemaRefs_superset)
  from Cons.IH[of rs] obtain r1 where r1: "collectProperties (walk idx) idx props rs = Some r1" "set rs \<subseteq> set r1"
    by blast
  from Cons.IH[of "collectSchemaRefs idx (Schema_of idx q) ?rs0"] obtain r2 where
    r2: "collectProperties (walk idx) idx props (collectSchemaRefs idx (Schema_of idx q) ?rs0) = Some r2"
      "set (collectSchemaRefs idx (Schema_of idx q) ?rs0) \<subseteq> set r2"
    by blast
  show ?case
    using a r1 r2 up w by (auto simp: Let_def)
qed

lemma collectProperties_certain:
  assumes "(k, p) \<in> set props" and "certain idx r p"
    and "collectProperties (walk idx) idx props rs = Some rs'"
  shows "r \<in> set rs'"
  using assms(1,3)
proof (induction props arbitrary: rs)
  case Nil
  then show ?case by simp
next
  case (Cons a props)
  obtain nm q where a: "a = (nm, q)" by (cases a)
  let ?rs0 = "if GetReference q \<noteq> [] then addParentSchemaRef (GetReference q) (List.insert (GetReference q) rs) else rs"
  let ?rs1 = "if q = NilProxy \<or> (GetReference q \<noteq> [] \<and> GetReference q \<in> set rs) then rs
              else collectSchemaRefs idx (Schema_of idx q) ?rs0"
  have rest: "collectProperties (walk idx) idx props ?rs1 = Some rs'"
    using Cons.prems(2) a by (auto simp: Let_def split: if_splits)
  show ?case
  proof (cases "(k, p) \<in> set props")
    case True
    then show ?thesis using rest by (rule Cons.IH)
  next
    case False
    with Cons.prems(1) a have here: "q = p" by simp
    have "r \<in> set ?rs1"
    proof (cases "GetReference p = []")
      case True
      then show ?thesis using here certain_step(1,3)[OF assms(2)] by simp
    next
      case False
      then have eq: "GetReference p = r" by (rule certain_step(2)[OF assms(2)])
      have "r \<in> set ?rs0" using here eq False by (auto intro: in_addParentSchemaRef)
      then have "r \<in> set (collectSchemaRefs idx (Schema_of idx q) ?rs0)"
        using collectSchemaRefs_superset by blast
      then show ?thesis using here eq certain_step(1)[OF assms(2)] by auto
    qed
    moreover from collectProperties_total2[of idx props ?rs1] rest have "set ?rs1 \<subseteq> set rs'" by auto
    ultimately show ?thesis by blast
  qed
qed

lemma collectDynamic_total2:
  "\<exists>f. collectDynamic (walk idx) idx dv rs = Some f \<and> set rs \<subseteq> set (flowSet f)"
  using collectDynamic_total[of idx dv rs] by (simp add: flowSet_def)

lemma collectDynamic_certain:
  assumes "dv = Some (DynA p)" and "certain idx r p"
    and "collectDynamic (walk idx) idx dv rs = Some f"
  shows "r \<in> set (flowSet f)"
proof (cases "GetReference p = []")
  case True
  then show ?thesis
    using assms(1,3) certain_step(1,3)[OF assms(2)]
    by (auto simp: collectDynamic_def flowSet_def)
next
  case False
  then have eq: "GetReference p = r" by (rule certain_step(2)[OF assms(2)])
  have "r \<in> set (collectSchemaRefs idx (Schema_of idx p) (List.insert r rs))"
    using collectSchemaRefs_superset[of "List.insert r rs" idx "Schema_of idx p"] by auto
  then show ?thesis
    using assms(1,3) certain_step(1)[OF assms(2)] False eq
    by (auto simp: collectDynamic_def flowSet_def Let_def split: if_splits)
qed

lemma noRef_Continue:
  "noRef dv \<Longrightarrow> collectDynamic rec idx dv rs = Some f \<Longrightarrow> \<exists>rs'. f = Continue rs'"
  by (auto simp: noRef_def collectDynamic_def Let_def split: option.splits DynamicValue.splits if_splits)

lemma collectGroup_total2:
  "\<exists>rs'. collectGroup (walk idx) idx sps rs = Some rs' \<and> set rs \<subseteq> set rs'"
proof (induction sps arbitrary: rs)
  case Nil
  show ?case by simp
next
  case (Cons sp sps)
  let ?rs0 = "if GetReference sp \<noteq> [] then List.insert (GetReference sp) rs else rs"
  have up: "set rs \<subseteq> set ?rs0" by auto
  have w: "set ?rs0 \<subseteq> set (collectSchemaRefs idx (Schema_of idx sp) ?rs0)"
    by (rule collectSchemaRefs_superset)
  from Cons.IH[of rs] obtain r1 where r1: "collectGroup (walk idx) idx sps rs = Some r1" "set rs \<subseteq> set r1"
    by blast
  from Cons.IH[of "collectSchemaRefs idx (Schema_of idx sp) ?rs0"] obtain r2 where
    r2: "collectGroup (walk idx) idx sps (collectSchemaRefs idx (Schema_of idx sp) ?rs0) = Some r2"
      "set (collectSchemaRefs idx (Schema_of idx sp) ?rs0) \<subseteq> set r2"
    by blast
  show ?case
    using r1 r2 up w by (auto simp: Let_def)
qed

lemma collectGroup_certain:
  assumes "p \<in> set sps" and "certain idx r p"
    and "collectGroup (walk idx) idx sps rs = Some rs'"
  shows "r \<in> set rs'"
  using assms(1,3)
proof (induction sps arbitrary: rs)
  case Nil
  then show ?case by simp
next
  case (Cons sp sps)
  let ?rs0 = "if GetReference sp \<noteq> [] then List.insert (GetReference sp) rs else rs"
  let ?rs1 = "if sp = NilProxy \<or> (GetReference sp \<noteq> [] \<and> GetReference sp \<in> set rs) then rs
              else collectSchemaRefs idx (Schema_of idx sp) ?rs0"
  have rest: "collectGroup (walk idx) idx sps ?rs1 = Some rs'"
    using Cons.prems(2) by (auto simp: Let_def split: if_splits)
  show ?case
  proof (cases "p \<in> set sps")
    case True
    then show ?thesis using rest by (rule Cons.IH)
  next
    case False
    with Cons.prems(1) have here: "sp = p" by simp
    have "r \<in> set ?rs1"
    proof (cases "GetReference p = []")
      case True
      then show ?thesis using here certain_step(1,3)[OF assms(2)] by simp
    next
      case False
      then have eq: "GetReference p = r" by (rule certain_step(2)[OF assms(2)])
      have "r \<in> set ?rs0" using here eq False by auto
      then have "r \<in> set (collectSchemaRefs idx (Schema_of idx sp) ?rs0)"
        using collectSchemaRefs_superset by blast
      then show ?thesis using here eq certain_step(1)[OF assms(2)] by auto
    qed
    moreover from collectGroup_total2[of idx sps ?rs1] rest have "set ?rs1 \<subseteq> set rs'" by auto
    ultimately show ?thesis by blast
  qed
qed

lemma collectGroups_total2:
  "\<exists>rs'. collectGroups (walk idx) idx groups rs = Some rs' \<and> set rs \<subseteq> set rs'"
proof (induction groups arbitrary: rs)
  case Nil
  show ?case by simp
next
  case (Cons sps groups)
  from collectGroup_total2[of idx sps rs] obtain r1 where
    r1: "collectGroup (walk idx) idx sps rs = Some r1" "set rs \<subseteq> set r1" by blast
  from Cons.IH[of r1] obtain r2 where
    "collectGroups (walk idx) idx groups r1 = Some r2" "set r1 \<subseteq> set r2" by blast
  with r1 show ?case by auto
qed

lemma collectGroups_certain:
  assumes "sps \<in> set groups" and "p \<in> set sps" and "certain idx r p"
    and "collectGroups (walk idx) idx groups rs = Some rs'"
  shows "r \<in> set rs'"
  using assms(1,4)
proof (induction groups arbitrary: rs)
  case Nil
  then show ?case by simp
next
  case (Cons g groups)
  from collectGroup_total2[of idx g rs] obtain r1 where
    r1: "collectGroup (walk idx) idx g rs = Some r1" "set rs \<subseteq> set r1" by blast
  with Cons.prems(2) have rest: "collectGroups (walk idx) idx groups r1 = Some rs'" by simp
  show ?case
  proof (cases "sps \<in> set groups")
    case True
    then show ?thesis using rest by (rule Cons.IH)
  next
    case False
    with Cons.prems(1) have "g = sps" by simp
    with r1(1) have "r \<in> set r1" using collectGroup_certain[OF assms(2,3)] by blast
    moreover from collectGroups_total2[of idx groups r1] rest have "set r1 \<subseteq> set rs'" by auto
    ultimately show ?thesis by blast
  qed
qed

lemma walk_stages:
  assumes fresh: "\<not> (Reference s \<noteq> [] \<and> Reference s \<in> set rs)"
  defines "rs0 \<equiv> (if Reference s \<noteq> [] then addParentSchemaRef (Reference s) (List.insert (Reference s) rs) else rs)"
  shows "\<exists>rs1 f2. collectProperties (walk idx) idx (Properties s) rs0 = Some rs1
      \<and> set rs0 \<subseteq> set rs1
      \<and> collectDynamic (walk idx) idx (Items s) rs1 = Some f2
      \<and> set rs1 \<subseteq> set (flowSet f2)
      \<and> set (flowSet f2) \<subseteq> set (collectSchemaRefs idx (Some s) rs)
      \<and> (\<forall>rs2. f2 = Continue rs2 \<longrightarrow>
            (\<exists>f3. collectDynamic (walk idx) idx (AdditionalProperties s) rs2 = Some f3
               \<and> set (flowSet f3) \<subseteq> set (collectSchemaRefs idx (Some s) rs)
               \<and> (\<forall>rs3. f3 = Continue rs3 \<longrightarrow>
                     collectGroups (walk idx) idx [AllOf s, OneOf s, AnyOf s, [Not_s s]] rs3
                       = Some (collectSchemaRefs idx (Some s) rs))))"
proof -
  from collectProperties_total2[of idx "Properties s" rs0] obtain rs1 where
    p: "collectProperties (walk idx) idx (Properties s) rs0 = Some rs1" "set rs0 \<subseteq> set rs1" by blast
  from collectDynamic_total2[of idx "Items s" rs1] obtain f2 where
    i: "collectDynamic (walk idx) idx (Items s) rs1 = Some f2" "set rs1 \<subseteq> set (flowSet f2)" by blast
  have body: "collectSchemaRefs_body (walk idx) idx (Some s) rs = Some (collectSchemaRefs idx (Some s) rs)"
    by (rule collectSchemaRefs_unfold)
  have rest: "(case f2 of
        Return rs2 \<Rightarrow> Some rs2
      | Continue rs2 \<Rightarrow>
         (case collectDynamic (walk idx) idx (AdditionalProperties s) rs2 of
            None \<Rightarrow> None
          | Some (Return rs3) \<Rightarrow> Some rs3
          | Some (Continue rs3) \<Rightarrow>
              collectGroups (walk idx) idx [AllOf s, OneOf s, AnyOf s, [Not_s s]] rs3))
      = Some (collectSchemaRefs idx (Some s) rs)"
    using body fresh p(1) i(1) by (auto simp: collectSchemaRefs_body_def Let_def rs0_def)
  show ?thesis
  proof (cases f2)
    case (Return rs2)
    with rest have "collectSchemaRefs idx (Some s) rs = rs2" by simp
    with p i Return show ?thesis by (auto simp: flowSet_def)
  next
    case (Continue rs2)
    from collectDynamic_total2[of idx "AdditionalProperties s" rs2] obtain f3 where
      a: "collectDynamic (walk idx) idx (AdditionalProperties s) rs2 = Some f3"
        "set rs2 \<subseteq> set (flowSet f3)" by blast
    have up: "set (flowSet f3) \<subseteq> set (collectSchemaRefs idx (Some s) rs)
        \<and> (\<forall>rs3. f3 = Continue rs3 \<longrightarrow>
              collectGroups (walk idx) idx [AllOf s, OneOf s, AnyOf s, [Not_s s]] rs3
                = Some (collectSchemaRefs idx (Some s) rs))"
    proof (cases f3)
      case (Return rs3)
      with rest Continue a(1) show ?thesis by (simp add: flowSet_def)
    next
      case c3: (Continue rs3)
      with rest Continue a(1) have
        g: "collectGroups (walk idx) idx [AllOf s, OneOf s, AnyOf s, [Not_s s]] rs3
              = Some (collectSchemaRefs idx (Some s) rs)" by simp
      with collectGroups_total2[of idx "[AllOf s, OneOf s, AnyOf s, [Not_s s]]" rs3]
      have "set rs3 \<subseteq> set (collectSchemaRefs idx (Some s) rs)" by auto
      with g c3 show ?thesis by (simp add: flowSet_def)
    qed
    have "set (flowSet f2) \<subseteq> set (collectSchemaRefs idx (Some s) rs)"
      using Continue a(2) up by (auto simp: flowSet_def)
    with p i Continue a(1) up show ?thesis by auto
  qed
qed

lemma walk_stages_plain:
  assumes "Reference s = []"
  shows "\<exists>rs1 f2. collectProperties (walk idx) idx (Properties s) rs = Some rs1
      \<and> set rs \<subseteq> set rs1
      \<and> collectDynamic (walk idx) idx (Items s) rs1 = Some f2
      \<and> set rs1 \<subseteq> set (flowSet f2)
      \<and> set (flowSet f2) \<subseteq> set (collectSchemaRefs idx (Some s) rs)
      \<and> (\<forall>rs2. f2 = Continue rs2 \<longrightarrow>
            (\<exists>f3. collectDynamic (walk idx) idx (AdditionalProperties s) rs2 = Some f3
               \<and> set (flowSet f3) \<subseteq> set (collectSchemaRefs idx (Some s) rs)
               \<and> (\<forall>rs3. f3 = Continue rs3 \<longrightarrow>
                     collectGroups (walk idx) idx [AllOf s, OneOf s, AnyOf s, [Not_s s]] rs3
                       = Some (collectSchemaRefs idx (Some s) rs))))"
proof -
  have "\<not> (Reference s \<noteq> [] \<and> Reference s \<in> set rs)" using assms by simp
  from walk_stages[OF this, of idx] show ?thesis
    by (simp only: assms if_False not_True_eq_False simp_thms)
qed

lemma recordedIn_certain: "recordedIn r p \<Longrightarrow> certain idx r p"
proof (induction rule: recordedIn.induct)
  case (recorded_ref r)
  then show ?case by (simp add: certain_def)
next
  case (recorded_own s r)
  have "r \<in> set (collectSchemaRefs idx (Some s) rs)" for rs
  proof (cases "r \<in> set rs")
    case True
    then show ?thesis using collectSchemaRefs_superset by blast
  next
    case False
    with recorded_own have fresh: "\<not> (Reference s \<noteq> [] \<and> Reference s \<in> set rs)" by simp
    have "r \<in> set (addParentSchemaRef (Reference s) (List.insert (Reference s) rs))"
      using recorded_own by (auto intro: in_addParentSchemaRef)
    with walk_stages[OF fresh, of idx] recorded_own show ?thesis by auto
  qed
  then show ?case by (simp add: certain_def)
next
  case (recorded_property s k p r)
  have "r \<in> set (collectSchemaRefs idx (Some s) rs)" for rs
  proof -
    from walk_stages_plain[OF recorded_property(1), of idx rs] obtain rs1 f2 where
      st: "collectProperties (walk idx) idx (Properties s) rs = Some rs1"
        "set rs1 \<subseteq> set (flowSet f2)" "set (flowSet f2) \<subseteq> set (collectSchemaRefs idx (Some s) rs)"
      by blast
    from collectProperties_certain[OF recorded_property(2) recorded_property.IH st(1)]
    show ?thesis using st(2,3) by blast
  qed
  then show ?case by (simp add: certain_def)
next
  case (recorded_items s p r)
  have "r \<in> set (collectSchemaRefs idx (Some s) rs)" for rs
  proof -
    from walk_stages_plain[OF recorded_items(1), of idx rs] obtain rs1 f2 where
      st: "collectDynamic (walk idx) idx (Items s) rs1 = Some f2"
        "set (flowSet f2) \<subseteq> set (collectSchemaRefs idx (Some s) rs)"
      by blast
    from collectDynamic_certain[OF recorded_items(2) recorded_items.IH st(1)]
    show ?thesis using st(2) by blast
  qed
  then show ?case by (simp add: certain_def)
next
  case (recorded_additional s p r)
  have "r \<in> set (collectSchemaRefs idx (Some s) rs)" for rs
  proof -
    from walk_stages_plain[OF recorded_additional(1), of idx rs] obtain rs1 f2 where
      st: "collectDynamic (walk idx) idx (Items s) rs1 = Some f2"
        "\<forall>rs2. f2 = Continue rs2 \<longrightarrow>
            (\<exists>f3. collectDynamic (walk idx) idx (AdditionalProperties s) rs2 = Some f3
               \<and> set (flowSet f3) \<subseteq> set (collectSchemaRefs idx (Some s) rs))"
      by blast
    from noRef_Continue[OF recorded_additional(2) st(1)] obtain rs2 where "f2 = Continue rs2" by blast
    with st(2) obtain f3 where
      f3: "collectDynamic (walk idx) idx (AdditionalProperties s) rs2 = Some f3"
        "set (flowSet f3) \<subseteq> set (collectSchemaRefs idx (Some s) rs)" by blast
    from collectDynamic_certain[OF recorded_additional(3) recorded_additional.IH f3(1)]
    show ?thesis using f3(2) by blast
  qed
  then show ?case by (simp add: certain_def)
next
  case (recorded_allOf s p r)
  have "r \<in> set (collectSchemaRefs idx (Some s) rs)" for rs
  proof -
    from walk_stages_plain[OF recorded_allOf(1), of idx rs] obtain rs1 f2 where
      st: "collectDynamic (walk idx) idx (Items s) rs1 = Some f2"
        "\<forall>rs2. f2 = Continue rs2 \<longrightarrow>
            (\<exists>f3. collectDynamic (walk idx) idx (AdditionalProperties s) rs2 = Some f3
               \<and> (\<forall>rs3. f3 = Continue rs3 \<longrightarrow>
                     collectGroups (walk idx) idx [AllOf s, OneOf s, AnyOf s, [Not_s s]] rs3
                       = Some (collectSchemaRefs idx (Some s) rs)))"
      by blast
    from noRef_Continue[OF recorded_allOf(2) st(1)] obtain rs2 where "f2 = Continue rs2" by blast
    with st(2) obtain f3 where
      f3: "collectDynamic (walk idx) idx (AdditionalProperties s) rs2 = Some f3"
        "\<forall>rs3. f3 = Continue rs3 \<longrightarrow>
                     collectGroups (walk idx) idx [AllOf s, OneOf s, AnyOf s, [Not_s s]] rs3
                       = Some (collectSchemaRefs idx (Some s) rs)" by blast
    from noRef_Continue[OF recorded_allOf(3) f3(1)] obtain rs3 where "f3 = Continue rs3" by blast
    with f3(2) have "collectGroups (walk idx) idx [AllOf s, OneOf s, AnyOf s, [Not_s s]] rs3
                       = Some (collectSchemaRefs idx (Some s) rs)" by blast
    from collectGroups_certain[OF _ recorded_allOf(4) recorded_allOf.IH this]
    show ?thesis by simp
  qed
  then show ?case by (simp add: certain_def)
next
  case (recorded_oneOf s p r)
  have "r \<in> set (collectSchemaRefs idx (Some s) rs)" for rs
  proof -
    from walk_stages_plain[OF recorded_oneOf(1), of idx rs] obtain rs1 f2 where
      st: "collectDynamic (walk idx) idx (Items s) rs1 = Some f2"
        "\<forall>rs2. f2 = Continue rs2 \<longrightarrow>
            (\<exists>f3. collectDynamic (walk idx) idx (AdditionalProperties s) rs2 = Some f3
               \<and> (\<forall>rs3. f3 = Continue rs3 \<longrightarrow>
                     collectGroups (walk idx) idx [AllOf s, OneOf s, AnyOf s, [Not_s s]] rs3
                       = Some (collectSchemaRefs idx (Some s) rs)))"
      by blast
    from noRef_Continue[OF recorded_oneOf(2) st(1)] obtain rs2 where "f2 = Continue rs2" by blast
    with st(2) obtain f3 where
      f3: "collectDynamic (walk idx) idx (AdditionalProperties s) rs2 = Some f3"
        "\<forall>rs3. f3 = Continue rs3 \<longrightarrow>
                     collectGroups (walk idx) idx [AllOf s, OneOf s, AnyOf s, [Not_s s]] rs3
                       = Some (collectSchemaRefs idx (Some s) rs)" by blast
    from noRef_Continue[OF recorded_oneOf(3) f3(1)] obtain rs3 where "f3 = Continue rs3" by blast
    with f3(2) have "collectGroups (walk idx) idx [AllOf s, OneOf s, AnyOf s, [Not_s s]] rs3
                       = Some (collectSchemaRefs idx (Some s) rs)" by blast
    from collectGroups_certain[OF _ recorded_oneOf(4) recorded_oneOf.IH this]
    show ?thesis by simp
  qed
  then show ?case by (simp add: certain_def)
next
  case (recorded_anyOf s p r)
  have "r \<in> set (collectSchemaRefs idx (Some s) rs)" for rs
  proof -
    from walk_stages_plain[OF recorded_anyOf(1), of idx rs] obtain rs1 f2 where
      st: "collectDynamic (walk idx) idx (Items s) rs1 = Some f2"
        "\<forall>rs2. f2 = Continue rs2 \<longrightarrow>
            (\<exists>f3. collectDynamic (walk idx) idx (AdditionalProperties s) rs2 = Some f3
               \<and> (\<forall>rs3. f3 = Continue rs3 \<longrightarrow>
                     collectGroups (walk idx) idx [AllOf s, OneOf s, AnyOf s, [Not_s s]] rs3
                       = Some (collectSchemaRefs idx (Some s) rs)))"
      by blast
    from noRef_Continue[OF recorded_anyOf(2) st(1)] obtain rs2 where "f2 = Continue rs2" by blast
    with st(2) obtain f3 where
      f3: "collectDynamic (walk idx) idx (AdditionalProperties s) rs2 = Some f3"
        "\<forall>rs3. f3 = Continue rs3 \<longrightarrow>
                     collectGroups (walk idx) idx [AllOf s, OneOf s, AnyOf s, [Not_s s]] rs3
                       = Some (collectSchemaRefs idx (Some s) rs)" by blast
    from noRef_Continue[OF recorded_anyOf(3) f3(1)] obtain rs3 where "f3 = Continue rs3" by blast
    with f3(2) have "collectGroups (walk idx) idx [AllOf s, OneOf s, AnyOf s, [Not_s s]] rs3
                       = Some (collectSchemaRefs idx (Some s) rs)" by blast
    from collectGroups_certain[OF _ recorded_anyOf(4) recorded_anyOf.IH this]
    show ?thesis by simp
  qed
  then show ?case by (simp add: certain_def)
next
  case (recorded_not s r)
  have "r \<in> set (collectSchemaRefs idx (Some s) rs)" for rs
  proof -
    from walk_stages_plain[OF recorded_not(1), of idx rs] obtain rs1 f2 where
      st: "collectDynamic (walk idx) idx (Items s) rs1 = Some f2"
        "\<forall>rs2. f2 = Continue rs2 \<longrightarrow>
            (\<exists>f3. collectDynamic (walk idx) idx (AdditionalProperties s) rs2 = Some f3
               \<and> (\<forall>rs3. f3 = Continue rs3 \<longrightarrow>
                     collectGroups (walk idx) idx [AllOf s, OneOf s, AnyOf s, [Not_s s]] rs3
                       = Some (collectSchemaRefs idx (Some s) rs)))"
      by blast
    from noRef_Continue[OF recorded_not(2) st(1)] obtain rs2 where "f2 = Continue rs2" by blast
    with st(2) obtain f3 where
      f3: "collectDynamic (walk idx) idx (AdditionalProperties s) rs2 = Some f3"
        "\<forall>rs3. f3 = Continue rs3 \<longrightarrow>
                     collectGroups (walk idx) idx [AllOf s, OneOf s, AnyOf s, [Not_s s]] rs3
                       = Some (collectSchemaRefs idx (Some s) rs)" by blast
    from noRef_Continue[OF recorded_not(3) f3(1)] obtain rs3 where "f3 = Continue rs3" by blast
    with f3(2) have "collectGroups (walk idx) idx [AllOf s, OneOf s, AnyOf s, [Not_s s]] rs3
                       = Some (collectSchemaRefs idx (Some s) rs)" by blast
    from collectGroups_certain[OF _ _ recorded_not.IH this, of "[Not_s s]"]
    show ?thesis by simp
  qed
  then show ?case by (simp add: certain_def)
qed

section \<open>Union synthesizer: properties\<close>

lemma single_null_type: "length t = Suc 0 \<and> ''null'' \<in> set t \<longleftrightarrow> t = [''null'']"
  by (cases t) auto

lemma nonNull_filter:
  "nonNull idx elements =
     (filter (\<lambda>e. Schema_of idx e \<noteq> None \<and> \<not> isNullMember idx e) elements,
      \<exists>e \<in> set elements. isNullMember idx e)"
proof (induction elements)
  case Nil
  show ?case by simp
next
  case (Cons element elements)
  show ?case
  proof (cases element)
    case NilProxy
    then show ?thesis using Cons by (simp add: isNullMember_def)
  next
    case (RefProxy r)
    then show ?thesis using Cons
      by (cases "Schema_of idx element")
         (auto simp: isNullMember_def single_null_type simp del: Schema_of.simps)
  next
    case (InlineProxy s)
    then show ?thesis using Cons
      by (auto simp: isNullMember_def single_null_type)
  qed
qed

lemma nonNull_not_nil: "m \<in> set (fst (nonNull idx elements)) \<Longrightarrow> m \<noteq> NilProxy"
  by (auto simp: nonNull_filter)

lemma nonNull_length: "length (fst (nonNull idx elements)) \<le> length elements"
  by (simp add: nonNull_filter)

lemma case_not_singleton:
  "length xs \<noteq> 1 \<Longrightarrow> (case xs of [] \<Rightarrow> y | x # xs' \<Rightarrow> (case xs' of [] \<Rightarrow> f x | z # zs \<Rightarrow> y)) = y"
  by (cases xs; cases "tl xs") auto

lemma generateUnion_nullable:
  assumes "length elements \<noteq> 1" and "nonNull idx elements = ([member], hasNull)"
  shows "generateUnion g idx elements discriminator options st = nullableElement g member hasNull options st"
  using assms by (simp add: generateUnion_def case_not_singleton del: nonNull.simps)

lemma generateUnion_unionOf:
  assumes "nonNull idx elements = (members, hasNull)" and "2 \<le> length members"
  shows "generateUnion g idx elements discriminator options st = unionOf g discriminator options members st"
proof -
  have "length elements \<noteq> 1"
    using nonNull_length[of idx elements] assms by simp
  moreover have "length members \<noteq> 1" using assms(2) by simp
  ultimately show ?thesis
    using assms(1) by (simp add: generateUnion_def case_not_singleton del: nonNull.simps)
qed

text \<open>C6. A union of two or more members of which exactly one is left when the members that
  are exactly the null type are removed is synthesized as that member (a member whose
  schema resolves): \<open>generateUnion\<close> returns what \<open>GenerateGoSchema\<close> returns for the member
  itself, marked nullable, and leaves the state as that one call left it. It builds no
  union, registers no type and adds no type definition of its own; an error of the
  member's synthesis is passed on.\<close>

theorem nullable_union_is_optional_member:
  assumes "2 \<le> length elements"
    and "filter (\<lambda>e. \<not> isNullMember idx e) elements = [member]"
    and "Schema_of idx member \<noteq> None"
  shows "generateUnion g idx elements discriminator options st =
     (case GenerateGoSchema g member (WithReference g (GetReference member) options) st of
        ((schema, None), st') \<Rightarrow> ((set_Nullable (Some True) schema, None), st')
      | ((schema, Some e), st') \<Rightarrow> ((emptyGoSchema, Some e), st'))"
proof -
  have "filter (\<lambda>e. Schema_of idx e \<noteq> None \<and> \<not> isNullMember idx e) elements
      = filter (\<lambda>e. Schema_of idx e \<noteq> None) (filter (\<lambda>e. \<not> isNullMember idx e) elements)"
    by (simp add: conj_commute)
  then have members: "fst (nonNull idx elements) = [member]"
    using assms(2,3) by (simp add: nonNull_filter)
  have "\<exists>e \<in> set elements. isNullMember idx e"
  proof (rule ccontr)
    assume "\<not> (\<exists>e \<in> set elements. isNullMember idx e)"
    then have "filter (\<lambda>e. \<not> isNullMember idx e) elements = elements" by (simp add: filter_id_conv)
    with assms(1,2) show False by simp
  qed
  then have "snd (nonNull idx elements) = True" by (simp add: nonNull_filter)
  with members have "nonNull idx elements = ([member], True)" by (simp add: prod_eq_iff)
  moreover have "length elements \<noteq> 1" using assms(1) by simp
  ultimately have "generateUnion g idx elements discriminator options st
      = nullableElement g member True options st"
    by (rule generateUnion_nullable[rotated])
  then show ?thesis
    by (simp add: nullableElement_def case_prod_unfold Let_def split: option.splits)
qed

theorem nullable_union_is_optional_member_witness:
  "generateUnion exampleCodegen animalIndex [InlineProxy stringSchema, InlineProxy nullSchema] None petOptions []
     = ((GoSchema ''string'' (Some True) None [] [], None), [])
   \<and> generateUnion exampleCodegen animalIndex [InlineProxy nullSchema, catRef] None petOptions []
     = ((GoSchema ''Cat'' (Some True) None [] [], None), [])"
proof -
  have two: "2 \<le> length [InlineProxy stringSchema, InlineProxy nullSchema]"
    "2 \<le> length [InlineProxy nullSchema, catRef]" by simp_all
  have one: "filter (\<lambda>e. \<not> isNullMember animalIndex e) [InlineProxy stringSchema, InlineProxy nullSchema]
      = [InlineProxy stringSchema]"
    "filter (\<lambda>e. \<not> isNullMember animalIndex e) [InlineProxy nullSchema, catRef] = [catRef]"
    by (simp_all add: isNullMember_def stringSchema_def nullSchema_def catRef_def animalIndex_def
        objectSchema_def)
  have resolves: "Schema_of animalIndex (InlineProxy stringSchema) \<noteq> None"
    "Schema_of animalIndex catRef \<noteq> None"
    by (simp_all add: catRef_def animalIndex_def)
  have gen: "GenerateGoSchema exampleCodegen (InlineProxy stringSchema)
        (WithReference exampleCodegen (GetReference (InlineProxy stringSchema)) petOptions) []
      = ((GoSchema ''string'' None None [] [], None), [])"
    "GenerateGoSchema exampleCodegen catRef (WithReference exampleCodegen (GetReference catRef) petOptions) []
      = ((GoSchema ''Cat'' None None [] [], None), [])"
    by (simp_all add: exampleCodegen_def exampleGenerate_def stringSchema_def catRef_def lastSegment_def)
  show ?thesis
    using nullable_union_is_optional_member[OF two(1) one(1) resolves(1), of exampleCodegen None petOptions "[]"]
      nullable_union_is_optional_member[OF two(2) one(2) resolves(2), of exampleCodegen None petOptions "[]"]
    by (simp only: gen prod.case option.case set_Nullable.simps simp_thms)
qed

lemma Discriminator_set [simp]:
  "Discriminator (set_UnionElements u s) = Discriminator s"
  "Discriminator (set_AdditionalTypes a s) = Discriminator s"
  "Discriminator (set_GoType t s) = Discriminator s"
  "Discriminator (set_Discriminator d s) = d"
  by (cases s; simp)+

lemma Discriminator_set_Mapping:
  "Discriminator (set_Mapping k v s)
     = map_option (\<lambda>d. d\<lparr>Mapping := AList.update k v (Mapping d)\<rparr>) (Discriminator s)"
  by (simp add: set_Mapping_def)

lemma UnionElements_set [simp]:
  "UnionElements (set_UnionElements u s) = u"
  by (cases s) simp

lemma defineElementType_Discriminator:
  "defineElementType g options elementPath ref elementSchema outSchema st = (elementSchema', outSchema', st')
     \<Longrightarrow> Discriminator outSchema' = Discriminator outSchema"
  by (auto simp: defineElementType_def Let_def split: if_splits)

lemma mapElement_Discriminator:
  "mapElement g (Some d) element elementSchema outSchema = Inr outSchema'
     \<Longrightarrow> Discriminator outSchema = Some \<lparr>Property = p, Mapping = m\<rparr>
     \<Longrightarrow> \<exists>m'. Discriminator outSchema' = Some \<lparr>Property = p, Mapping = m'\<rparr>"
  by (auto simp: mapElement_def Let_def Discriminator_set_Mapping split: if_splits)

lemma unionElement_cases:
  assumes "unionElement g discriminator options i element outSchema st = (res, st')"
  obtains (failed) err schema opts where "res = Inl err"
      "GenerateGoSchema g element opts st = ((schema, Some err), st')"
    | (mapped) elementSchema opts st1 elementSchema' out1 where
      "GenerateGoSchema g element opts st = ((elementSchema, None), st1)"
      "defineElementType g options (path g options @ [showDec i]) (GetReference element)
          elementSchema outSchema st1 = (elementSchema', out1, st')"
      "res = (case mapElement g discriminator element elementSchema' out1 of
                Inl e \<Rightarrow> Inl e
              | Inr out2 \<Rightarrow> Inr (set_UnionElements (UnionElements out2 @ [GoType elementSchema']) out2))"
proof -
  let ?opts = "WithPath g (path g options @ [showDec i]) (WithReference g (GetReference element) options)"
  obtain elementSchema err st1 where gen: "GenerateGoSchema g element ?opts st = ((elementSchema, err), st1)"
    by (metis prod.exhaust)
  show thesis
  proof (cases err)
    case (Some e)
    with assms gen have "res = Inl e" "st' = st1" by (simp_all add: unionElement_def Let_def)
    with gen Some failed show thesis by blast
  next
    case None
    obtain elementSchema' out1 st2 where
      def: "defineElementType g options (path g options @ [showDec i]) (GetReference element)
          elementSchema outSchema st1 = (elementSchema', out1, st2)"
      by (metis prod.exhaust)
    with assms gen None have
      "res = (case mapElement g discriminator element elementSchema' out1 of
                Inl e \<Rightarrow> Inl e
              | Inr out2 \<Rightarrow> Inr (set_UnionElements (UnionElements out2 @ [GoType elementSchema']) out2))"
      "st' = st2"
      by (auto simp: unionElement_def Let_def split: sum.splits)
    with gen None def mapped show thesis by blast
  qed
qed

lemma unionElement_Discriminator:
  assumes "unionElement g (Some d) options i element outSchema st = (Inr outSchema', st')"
    and "Discriminator outSchema = Some \<lparr>Property = p, Mapping = m\<rparr>"
  shows "\<exists>m'. Discriminator outSchema' = Some \<lparr>Property = p, Mapping = m'\<rparr>"
  using assms(1)
proof (cases rule: unionElement_cases)
  case (failed err schema opts)
  then show ?thesis by simp
next
  case (mapped elementSchema opts st1 elementSchema' out1)
  from mapped(2) have d1: "Discriminator out1 = Some \<lparr>Property = p, Mapping = m\<rparr>"
    using assms(2) by (simp add: defineElementType_Discriminator)
  from mapped(3) obtain out2 where
    out2: "mapElement g (Some d) element elementSchema' out1 = Inr out2"
      "outSchema' = set_UnionElements (UnionElements out2 @ [GoType elementSchema']) out2"
    by (cases "mapElement g (Some d) element elementSchema' out1") simp_all
  from mapElement_Discriminator[OF out2(1) d1] out2(2) show ?thesis by simp
qed

lemma unionElements_Discriminator:
  "unionElements g (Some d) options i elements outSchema st = ((outSchema', None), st')
     \<Longrightarrow> Discriminator outSchema = Some \<lparr>Property = p, Mapping = m\<rparr>
     \<Longrightarrow> \<exists>m'. Discriminator outSchema' = Some \<lparr>Property = p, Mapping = m'\<rparr>"
proof (induction elements arbitrary: i outSchema st m)
  case Nil
  then show ?case by simp
next
  case (Cons element elements)
  show ?case
  proof (cases "element = NilProxy")
    case True
    with Cons.prems Cons.IH show ?thesis by simp
  next
    case False
    obtain res st1 where step: "unionElement g (Some d) options i element outSchema st = (res, st1)"
      by (cases "unionElement g (Some d) options i element outSchema st")
    show ?thesis
    proof (cases res)
      case (Inl e)
      with Cons.prems(1) False step show ?thesis by simp
    next
      case (Inr out1)
      with step have "unionElement g (Some d) options i element outSchema st = (Inr out1, st1)" by simp
      from unionElement_Discriminator[OF this Cons.prems(2)]
      obtain m1 where "Discriminator out1 = Some \<lparr>Property = p, Mapping = m1\<rparr>" by blast
      moreover from Cons.prems(1) False step Inr
      have "unionElements g (Some d) options (Suc i) elements out1 st1 = ((outSchema', None), st')"
        by simp
      ultimately show ?thesis using Cons.IH by blast
    qed
  qed
qed

lemma Discriminator_initialUnion:
  "Discriminator (initialUnion (Some d)) = Some \<lparr>Property = PropertyName d, Mapping = []\<rparr>"
  by (simp add: initialUnion_def)

lemma unionElements_cat_dog_cat:
  "unionElements exampleCodegen (Some catAndDog) petOptions 0 [catRef, dogRef, catRef]
      (initialUnion (Some catAndDog)) []
     = ((GoSchema [] None (Some \<lparr>Property = ''petType'', Mapping = [(''cat'', ''Cat''), (''dog'', ''Dog'')]\<rparr>)
           [''Cat'', ''Dog'', ''Cat''] [], None), [])"
  by code_simp

lemma unionElements_cat_dog_bird:
  "unionElements exampleCodegen (Some catAndDog) petOptions 0 [catRef, dogRef, birdRef]
      (initialUnion (Some catAndDog)) []
     = ((GoSchema [] None (Some \<lparr>Property = ''petType'',
            Mapping = [(''cat'', ''Cat''), (''dog'', ''Dog''), (''Bird'', ''Bird'')]\<rparr>)
           [''Cat'', ''Dog'', ''Bird''] [], None), [])"
  by code_simp

lemma nonNull_animals:
  "nonNull animalIndex [catRef, dogRef, catRef] = ([catRef, dogRef, catRef], False)"
  "nonNull animalIndex [catRef, dogRef, birdRef] = ([catRef, dogRef, birdRef], False)"
  "nonNull animalIndex [catRef, InlineProxy objectSchema] = ([catRef, InlineProxy objectSchema], False)"
  by code_simp+

lemma mapElement_key:
  assumes "bd_Mapping d \<noteq> [] \<longrightarrow> GetReference element \<noteq> []"
    and "Discriminator outSchema = Some \<lparr>Property = p, Mapping = m\<rparr>"
  shows "\<exists>out'. mapElement g (Some d) element elementSchema outSchema = Inr out'
     \<and> Discriminator out' = Some \<lparr>Property = p,
          Mapping = AList.update (discriminatorKey g d element) (GoType elementSchema) m\<rparr>"
  using assms
  by (auto simp: mapElement_def discriminatorKey_def Let_def Discriminator_set_Mapping
      split: option.splits)

lemma unionElement_key:
  assumes gen: "\<forall>opts s. snd (fst (GenerateGoSchema g element opts s)) = None"
    and ref: "bd_Mapping d \<noteq> [] \<longrightarrow> GetReference element \<noteq> []"
    and disc: "Discriminator outSchema = Some \<lparr>Property = p, Mapping = m\<rparr>"
  shows "\<exists>out' st' t. unionElement g (Some d) options i element outSchema st = (Inr out', st')
     \<and> Discriminator out' = Some \<lparr>Property = p,
          Mapping = AList.update (discriminatorKey g d element) t m\<rparr>"
proof -
  obtain res st' where step: "unionElement g (Some d) options i element outSchema st = (res, st')"
    by (cases "unionElement g (Some d) options i element outSchema st")
  from step show ?thesis
  proof (cases rule: unionElement_cases)
    case (failed err schema opts)
    with gen have False by (metis fst_conv snd_conv option.distinct(1))
    then show ?thesis ..
  next
    case (mapped elementSchema opts st1 elementSchema' out1)
    from mapped(2) have d1: "Discriminator out1 = Some \<lparr>Property = p, Mapping = m\<rparr>"
      using disc by (simp add: defineElementType_Discriminator)
    from mapElement_key[OF ref d1, of g elementSchema']
    obtain out2 where out2: "mapElement g (Some d) element elementSchema' out1 = Inr out2"
      "Discriminator out2 = Some \<lparr>Property = p,
          Mapping = AList.update (discriminatorKey g d element) (GoType elementSchema') m\<rparr>"
      by blast
    with mapped(3) step show ?thesis by auto
  qed
qed

lemma unionElements_keys:
  assumes "\<forall>e \<in> set elements. e \<noteq> NilProxy"
    and "\<forall>e \<in> set elements. \<forall>opts s. snd (fst (GenerateGoSchema g e opts s)) = None"
    and "bd_Mapping d \<noteq> [] \<longrightarrow> (\<forall>e \<in> set elements. GetReference e \<noteq> [])"
    and "Discriminator outSchema = Some \<lparr>Property = p, Mapping = m\<rparr>"
    and "distinct (map fst m)"
  shows "\<exists>out' st' m'. unionElements g (Some d) options i elements outSchema st = ((out', None), st')
     \<and> Discriminator out' = Some \<lparr>Property = p, Mapping = m'\<rparr>
     \<and> distinct (map fst m')
     \<and> set (map fst m') = set (map fst m) \<union> discriminatorKey g d ` set elements"
  using assms
proof (induction elements arbitrary: i outSchema st m)
  case Nil
  then show ?case by simp
next
  case (Cons element elements)
  have notnil: "element \<noteq> NilProxy" using Cons.prems(1) by simp
  have gen: "\<forall>opts s. snd (fst (GenerateGoSchema g element opts s)) = None" using Cons.prems(2) by simp
  have ref: "bd_Mapping d \<noteq> [] \<longrightarrow> GetReference element \<noteq> []" using Cons.prems(3) by simp
  from unionElement_key[OF gen ref Cons.prems(4), of options i st]
  obtain out1 st1 t where step: "unionElement g (Some d) options i element outSchema st = (Inr out1, st1)"
    and d1: "Discriminator out1 = Some \<lparr>Property = p,
          Mapping = AList.update (discriminatorKey g d element) t m\<rparr>"
    by blast
  have dist1: "distinct (map fst (AList.update (discriminatorKey g d element) t m))"
    using Cons.prems(5) by (rule distinct_update)
  have "\<exists>out' st' m'. unionElements g (Some d) options (Suc i) elements out1 st1 = ((out', None), st')
     \<and> Discriminator out' = Some \<lparr>Property = p, Mapping = m'\<rparr>
     \<and> distinct (map fst m')
     \<and> set (map fst m') = set (map fst (AList.update (discriminatorKey g d element) t m))
          \<union> discriminatorKey g d ` set elements"
  proof (rule Cons.IH[OF _ _ _ d1 dist1])
    show "\<forall>e \<in> set elements. e \<noteq> NilProxy" using Cons.prems(1) by simp
    show "\<forall>e \<in> set elements. \<forall>opts s. snd (fst (GenerateGoSchema g e opts s)) = None"
      using Cons.prems(2) by simp
    show "bd_Mapping d \<noteq> [] \<longrightarrow> (\<forall>e \<in> set elements. GetReference e \<noteq> [])"
      using Cons.prems(3) by simp
  qed
  then obtain out' st' m' where
    rest: "unionElements g (Some d) options (Suc i) elements out1 st1 = ((out', None), st')"
      "Discriminator out' = Some \<lparr>Property = p, Mapping = m'\<rparr>" "distinct (map fst m')"
      "set (map fst m') = set (map fst (AList.update (discriminatorKey g d element) t m))
          \<union> discriminatorKey g d ` set elements"
    by blast
  have keys: "set (map fst (AList.update (discriminatorKey g d element) t m))
      = insert (discriminatorKey g d element) (set (map fst m))"
    using dom_update[of "discriminatorKey g d element" t m] by simp
  have "unionElements g (Some d) options i (element # elements) outSchema st = ((out', None), st')"
    using notnil step rest(1) by simp
  moreover have "set (map fst m') = set (map fst m) \<union> discriminatorKey g d ` set (element # elements)"
    using rest(4) keys by auto
  ultimately show ?case using rest(2,3) by blast
qed

lemma length_mapping_keys:
  assumes "distinct (map fst m')" and "set (map fst m') = set (map key members)"
  shows "length m' = length members \<longleftrightarrow> distinct (map key members)"
proof -
  have "length m' = card (set (map key members))"
    using distinct_card[OF assms(1)] assms(2) by simp
  then show ?thesis
    by (metis card_distinct distinct_card length_map)
qed

lemma generateUnion_cat_dog_cat:
  "generateUnion exampleCodegen animalIndex [catRef, dogRef, catRef] (Some catAndDog) petOptions []
     = ((emptyGoSchema, Some ErrDiscriminatorNotAllMapped), [])"
  by code_simp

lemma generateUnion_cat_dog_bird:
  "generateUnion exampleCodegen animalIndex [catRef, dogRef, birdRef] (Some catAndDog) petOptions []
     = ((GoSchema [] None (Some \<lparr>Property = ''petType'',
            Mapping = [(''cat'', ''Cat''), (''dog'', ''Dog''), (''Bird'', ''Bird'')]\<rparr>)
           [''Cat'', ''Dog'', ''Bird''] [], None), [])"
  by code_simp

text \<open>C5, as the spec states it, fails in both directions. The declared mapping
  \<open>cat \<mapsto> Cat, dog \<mapsto> Dog\<close> covers every member of the union \<open>[Cat, Dog, Cat]\<close>, and the
  synthesis fails with the incomplete-mapping error; it covers two of the three members
  of \<open>[Cat, Dog, Bird]\<close>, and the synthesis succeeds, with \<open>Bird\<close> entered under the name
  derived from its reference.\<close>

theorem declared_mapping_does_not_decide:
  "set (map GetReference [catRef, dogRef, catRef]) \<subseteq> set (map snd (bd_Mapping catAndDog))
   \<and> generateUnion exampleCodegen animalIndex [catRef, dogRef, catRef] (Some catAndDog) petOptions []
       = ((emptyGoSchema, Some ErrDiscriminatorNotAllMapped), [])
   \<and> length (bd_Mapping catAndDog) = 2
   \<and> GetReference birdRef \<notin> set (map snd (bd_Mapping catAndDog))
   \<and> generateUnion exampleCodegen animalIndex [catRef, dogRef, birdRef] (Some catAndDog) petOptions []
       = ((GoSchema [] None (Some \<lparr>Property = ''petType'',
              Mapping = [(''cat'', ''Cat''), (''dog'', ''Dog''), (''Bird'', ''Bird'')]\<rparr>)
             [''Cat'', ''Dog'', ''Bird''] [], None), [])"
  using generateUnion_cat_dog_cat generateUnion_cat_dog_bird
  by (simp add: catRef_def dogRef_def birdRef_def catAndDog_def petType_def)

text \<open>C5, amended. Under a declared discriminator, let the union have two or more non-null
  members, each of which is synthesized without an error and, when the declared mapping
  is not empty, has a reference. Then the loop enters every member in the mapping it
  builds, under the key of the first declared entry whose value is the member's
  reference, else under the name derived from the reference: the keys of the built
  mapping are exactly the keys of the members. \<open>generateUnion\<close> fails with the
  incomplete-mapping error and returns the empty schema \<open>GoSchema{}\<close>, no partial union,
  exactly when two members have the same key, which is when the built mapping has fewer
  entries than there are members; otherwise it returns the union with the deduplicated
  elements, without an error.\<close>

theorem discriminator_keys_must_differ:
  assumes "nonNull idx elements = (members, hasNull)" and "2 \<le> length members"
    and "bd_Mapping d \<noteq> [] \<longrightarrow> (\<forall>e \<in> set members. GetReference e \<noteq> [])"
    and "\<forall>e \<in> set members. \<forall>opts s. snd (fst (GenerateGoSchema g e opts s)) = None"
  shows "\<exists>outSchema mapping st'.
      unionElements g (Some d) options 0 members (initialUnion (Some d)) st = ((outSchema, None), st')
    \<and> Discriminator outSchema = Some \<lparr>Property = PropertyName d, Mapping = mapping\<rparr>
    \<and> distinct (map fst mapping)
    \<and> set (map fst mapping) = set (map (discriminatorKey g d) members)
    \<and> generateUnion g idx elements (Some d) options st =
        (if distinct (map (discriminatorKey g d) members)
         then ((set_UnionElements (deduplicateUnionElements (UnionElements outSchema)) outSchema, None), st')
         else ((emptyGoSchema, Some ErrDiscriminatorNotAllMapped), st'))"
proof -
  have notnil: "\<forall>e \<in> set members. e \<noteq> NilProxy"
    using nonNull_not_nil[of _ idx elements] assms(1) by auto
  from unionElements_keys[OF notnil assms(4,3) Discriminator_initialUnion[of d], where options = options
      and i = 0 and st = st]
  obtain outSchema st' mapping where
    loop: "unionElements g (Some d) options 0 members (initialUnion (Some d)) st = ((outSchema, None), st')"
    and disc: "Discriminator outSchema = Some \<lparr>Property = PropertyName d, Mapping = mapping\<rparr>"
    and dist: "distinct (map fst mapping)"
    and keys: "set (map fst mapping) = set (map (discriminatorKey g d) members)"
    by auto
  have len: "length mapping = length members \<longleftrightarrow> distinct (map (discriminatorKey g d) members)"
    using dist keys by (rule length_mapping_keys)
  have "generateUnion g idx elements (Some d) options st = unionOf g (Some d) options members st"
    using assms(1,2) by (rule generateUnion_unionOf)
  then have "generateUnion g idx elements (Some d) options st =
        (if distinct (map (discriminatorKey g d) members)
         then ((set_UnionElements (deduplicateUnionElements (UnionElements outSchema)) outSchema, None), st')
         else ((emptyGoSchema, Some ErrDiscriminatorNotAllMapped), st'))"
    using loop disc len by (simp add: unionOf_def Let_def)
  with loop disc dist keys show ?thesis by blast
qed

theorem discriminator_keys_must_differ_witness:
  "map (discriminatorKey exampleCodegen catAndDog) [catRef, dogRef, catRef] = [''cat'', ''dog'', ''cat'']
   \<and> generateUnion exampleCodegen animalIndex [catRef, dogRef, catRef] (Some catAndDog) petOptions []
       = ((emptyGoSchema, Some ErrDiscriminatorNotAllMapped), [])
   \<and> map (discriminatorKey exampleCodegen catAndDog) [catRef, dogRef, birdRef] = [''cat'', ''dog'', ''Bird'']
   \<and> generateUnion exampleCodegen animalIndex [catRef, dogRef, birdRef] (Some catAndDog) petOptions []
       = ((GoSchema [] None (Some \<lparr>Property = ''petType'',
              Mapping = [(''cat'', ''Cat''), (''dog'', ''Dog''), (''Bird'', ''Bird'')]\<rparr>)
             [''Cat'', ''Dog'', ''Bird''] [], None), [])"
proof -
  have three: "2 \<le> length [catRef, dogRef, catRef]" "2 \<le> length [catRef, dogRef, birdRef]" by simp_all
  have refs: "bd_Mapping catAndDog \<noteq> [] \<longrightarrow> (\<forall>e \<in> set [catRef, dogRef, catRef]. GetReference e \<noteq> [])"
    "bd_Mapping catAndDog \<noteq> [] \<longrightarrow> (\<forall>e \<in> set [catRef, dogRef, birdRef]. GetReference e \<noteq> [])"
    by (simp_all add: catRef_def dogRef_def birdRef_def)
  have gen: "\<forall>e \<in> set [catRef, dogRef, catRef].
        \<forall>opts s. snd (fst (GenerateGoSchema exampleCodegen e opts s)) = None"
    "\<forall>e \<in> set [catRef, dogRef, birdRef].
        \<forall>opts s. snd (fst (GenerateGoSchema exampleCodegen e opts s)) = None"
    by (simp_all add: catRef_def dogRef_def birdRef_def exampleCodegen_def exampleGenerate_def)
  have keys: "map (discriminatorKey exampleCodegen catAndDog) [catRef, dogRef, catRef] = [''cat'', ''dog'', ''cat'']"
    "map (discriminatorKey exampleCodegen catAndDog) [catRef, dogRef, birdRef] = [''cat'', ''dog'', ''Bird'']"
    by (simp_all add: discriminatorKey_def catRef_def dogRef_def birdRef_def catAndDog_def petType_def
        exampleCodegen_def lastSegment_def)
  from discriminator_keys_must_differ[OF nonNull_animals(1) three(1) refs(1) gen(1), of petOptions "[]"]
  obtain out1 st1 where
    loop1: "unionElements exampleCodegen (Some catAndDog) petOptions 0 [catRef, dogRef, catRef]
        (initialUnion (Some catAndDog)) [] = ((out1, None), st1)"
    and res1: "generateUnion exampleCodegen animalIndex [catRef, dogRef, catRef] (Some catAndDog) petOptions [] =
        (if distinct (map (discriminatorKey exampleCodegen catAndDog) [catRef, dogRef, catRef])
         then ((set_UnionElements (deduplicateUnionElements (UnionElements out1)) out1, None), st1)
         else ((emptyGoSchema, Some ErrDiscriminatorNotAllMapped), st1))"
    by blast
  from loop1 have "st1 = []" unfolding unionElements_cat_dog_cat by simp
  with res1[unfolded keys] have same: "generateUnion exampleCodegen animalIndex [catRef, dogRef, catRef] (Some catAndDog) petOptions []
       = ((emptyGoSchema, Some ErrDiscriminatorNotAllMapped), [])"
    by simp
  from discriminator_keys_must_differ[OF nonNull_animals(2) three(2) refs(2) gen(2), of petOptions "[]"]
  obtain out2 st2 where
    loop2: "unionElements exampleCodegen (Some catAndDog) petOptions 0 [catRef, dogRef, birdRef]
        (initialUnion (Some catAndDog)) [] = ((out2, None), st2)"
    and res2: "generateUnion exampleCodegen animalIndex [catRef, dogRef, birdRef] (Some catAndDog) petOptions [] =
        (if distinct (map (discriminatorKey exampleCodegen catAndDog) [catRef, dogRef, birdRef])
         then ((set_UnionElements (deduplicateUnionElements (UnionElements out2)) out2, None), st2)
         else ((emptyGoSchema, Some ErrDiscriminatorNotAllMapped), st2))"
    by blast
  from loop2 have "st2 = []" "out2 = GoSchema [] None (Some \<lparr>Property = ''petType'',
              Mapping = [(''cat'', ''Cat''), (''dog'', ''Dog''), (''Bird'', ''Bird'')]\<rparr>)
             [''Cat'', ''Dog'', ''Bird''] []"
    unfolding unionElements_cat_dog_bird by simp_all
  with res2[unfolded keys] have different: "generateUnion exampleCodegen animalIndex [catRef, dogRef, birdRef] (Some catAndDog) petOptions []
       = ((GoSchema [] None (Some \<lparr>Property = ''petType'',
              Mapping = [(''cat'', ''Cat''), (''dog'', ''Dog''), (''Bird'', ''Bird'')]\<rparr>)
             [''Cat'', ''Dog'', ''Bird''] [], None), [])"
    by (simp add: deduplicateUnionElements_def)
  from keys(1) same keys(2) different show ?thesis by (intro conjI)
qed

lemma unionElement_ambiguous:
  assumes "unionElement g (Some d) options i element outSchema st = (res, st')"
    and "bd_Mapping d \<noteq> []"
  shows "case res of
           Inl err \<Rightarrow> (err = ErrAmbiguousDiscriminatorMapping \<and> GetReference element = [])
              \<or> (\<exists>opts s r s'. GenerateGoSchema g element opts s = ((r, Some err), s'))
         | Inr outSchema' \<Rightarrow> GetReference element \<noteq> []"
  using assms(1)
proof (cases rule: unionElement_cases)
  case (failed err schema opts)
  then show ?thesis by auto
next
  case (mapped elementSchema opts st1 elementSchema' out1)
  then show ?thesis using assms(2)
    by (auto simp: mapElement_def Let_def)
qed

lemma unionElements_ambiguous:
  "bd_Mapping d \<noteq> [] \<Longrightarrow> \<forall>m \<in> set elements. m \<noteq> NilProxy \<Longrightarrow> \<exists>m \<in> set elements. GetReference m = []
     \<Longrightarrow> \<exists>err st'. unionElements g (Some d) options i elements outSchema st = ((emptyGoSchema, Some err), st')
           \<and> (err = ErrAmbiguousDiscriminatorMapping
               \<or> (\<exists>m \<in> set elements. \<exists>opts s r s'. GenerateGoSchema g m opts s = ((r, Some err), s')))"
proof (induction elements arbitrary: i outSchema st)
  case Nil
  then show ?case by simp
next
  case (Cons element elements)
  obtain res st1 where step: "unionElement g (Some d) options i element outSchema st = (res, st1)"
    by (cases "unionElement g (Some d) options i element outSchema st")
  note shape = unionElement_ambiguous[OF step Cons.prems(1)]
  have notnil: "element \<noteq> NilProxy" using Cons.prems(2) by simp
  show ?case
  proof (cases res)
    case (Inl err)
    with shape step notnil show ?thesis by auto
  next
    case (Inr out1)
    with shape have "GetReference element \<noteq> []" by simp
    with Cons.prems(3) have "\<exists>m \<in> set elements. GetReference m = []" by auto
    moreover have "\<forall>m \<in> set elements. m \<noteq> NilProxy" using Cons.prems(2) by simp
    ultimately obtain err st' where
      "unionElements g (Some d) options (Suc i) elements out1 st1 = ((emptyGoSchema, Some err), st')"
      "err = ErrAmbiguousDiscriminatorMapping
         \<or> (\<exists>m \<in> set elements. \<exists>opts s r s'. GenerateGoSchema g m opts s = ((r, Some err), s'))"
      using Cons.IH[OF Cons.prems(1), of "Suc i" out1 st1] by blast
    with step Inr notnil show ?thesis by auto
  qed
qed

lemma generateUnion_cat_inline_explicit:
  "generateUnion exampleCodegen animalIndex [catRef, InlineProxy objectSchema]
      (Some (petType [(''cat'', ''#/components/schemas/Cat'')])) petOptions []
     = ((emptyGoSchema, Some ErrAmbiguousDiscriminatorMapping), [inlineObjectType])"
  by code_simp

text \<open>C4, as the spec states it, fails: under a discriminator that declares no explicit
  mapping, a union of a reference and an inline object is synthesized without an error;
  the member without a reference is entered in the mapping under the implicit key of the
  empty reference.\<close>

theorem member_without_reference_is_mapped_implicitly:
  "nonNull animalIndex [catRef, InlineProxy objectSchema] = ([catRef, InlineProxy objectSchema], False)
   \<and> GetReference (InlineProxy objectSchema) = []
   \<and> generateUnion exampleCodegen animalIndex [catRef, InlineProxy objectSchema] (Some (petType [])) petOptions []
     = ((GoSchema [] None
           (Some \<lparr>Property = ''petType'', Mapping = [(''Cat'', ''Cat''), ([], ''Pet_AnyOf_1_'')]\<rparr>)
           [''Cat'', ''Pet_AnyOf_1_''] [inlineObjectType], None),
        [inlineObjectType])"
  by code_simp

text \<open>C4, amended. When the declared discriminator has an explicit mapping that is not empty,
  a union of two or more non-null members one of which has no reference is not
  synthesized: \<open>generateUnion\<close> returns an error together with the empty schema. The error
  is the ambiguous-mapping error, unless the synthesis of a member fails first, and then
  it is that member's error.\<close>

theorem member_without_reference_is_ambiguous:
  assumes "nonNull idx elements = (members, hasNull)" and "2 \<le> length members"
    and "bd_Mapping d \<noteq> []"
    and "\<exists>m \<in> set members. GetReference m = []"
  shows "\<exists>err st'. generateUnion g idx elements (Some d) options st = ((emptyGoSchema, Some err), st')
      \<and> (err = ErrAmbiguousDiscriminatorMapping
          \<or> (\<exists>m \<in> set members. \<exists>opts s r s'. GenerateGoSchema g m opts s = ((r, Some err), s')))"
proof -
  have "\<forall>m \<in> set members. m \<noteq> NilProxy"
    using nonNull_not_nil[of _ idx elements] assms(1) by simp
  from unionElements_ambiguous[OF assms(3) this assms(4), of g options 0 "initialUnion (Some d)" st]
  obtain err st' where
    "unionElements g (Some d) options 0 members (initialUnion (Some d)) st = ((emptyGoSchema, Some err), st')"
    "err = ErrAmbiguousDiscriminatorMapping
       \<or> (\<exists>m \<in> set members. \<exists>opts s r s'. GenerateGoSchema g m opts s = ((r, Some err), s'))"
    by blast
  moreover have "generateUnion g idx elements (Some d) options st = unionOf g (Some d) options members st"
    using assms(1,2) by (rule generateUnion_unionOf)
  ultimately show ?thesis by (simp add: unionOf_def)
qed

theorem member_without_reference_is_ambiguous_witness:
  "generateUnion exampleCodegen animalIndex [catRef, InlineProxy objectSchema]
      (Some (petType [(''cat'', ''#/components/schemas/Cat'')])) petOptions []
     = ((emptyGoSchema, Some ErrAmbiguousDiscriminatorMapping), [inlineObjectType])"
proof -
  have "2 \<le> length [catRef, InlineProxy objectSchema]" by simp
  moreover have "bd_Mapping (petType [(''cat'', ''#/components/schemas/Cat'')]) \<noteq> []"
    by (simp add: petType_def)
  moreover have "\<exists>m \<in> set [catRef, InlineProxy objectSchema]. GetReference m = []" by simp
  ultimately have "\<exists>err st'. generateUnion exampleCodegen animalIndex [catRef, InlineProxy objectSchema]
        (Some (petType [(''cat'', ''#/components/schemas/Cat'')])) petOptions [] = ((emptyGoSchema, Some err), st')
      \<and> (err = ErrAmbiguousDiscriminatorMapping
          \<or> (\<exists>m \<in> set [catRef, InlineProxy objectSchema]. \<exists>opts s r s'.
                GenerateGoSchema exampleCodegen m opts s = ((r, Some err), s')))"
    by (rule member_without_reference_is_ambiguous[OF nonNull_animals(3)])
  then show ?thesis using generateUnion_cat_inline_explicit by simp
qed

end
